theory Spec2Isabelle
  imports Main "HOL-Library.Sublist" "HOL-Library.List_Lexorder" "HOL-Library.Char_ord"
begin

section \<open>The CSV output of dowel: \<^verbatim>\<open>dowel/csv_output.py\<close>\<close>

text \<open>
  \<^verbatim>\<open>CsvOutput\<close> writes one CSV row per \<^verbatim>\<open>TabularInput\<close> it is given, commits to a
  header at the first record that has keys, and reconciles later changes of the key set
  in one of three ways (\<^verbatim>\<open>None\<close>, \<^verbatim>\<open>'copy'\<close>, \<^verbatim>\<open>'fixed_header_length'\<close>).

  Strings are lists of characters, a Python \<^verbatim>\<open>set\<close> of strings is a HOL set, a
  \<^verbatim>\<open>dict\<close> is an association list in insertion order, the log file is its text and
  a position, and every \<^verbatim>\<open>raise\<close> is a value \<open>Raise\<close> that carries the state at
  the moment of the exception.
\<close>

subsection \<open>Characters and strings\<close>

definition CR :: char where "CR = CHR 0x0D"
definition LF :: char where "LF = CHR 0x0A"
definition NUL :: char where "NUL = CHR 0x00"
definition comma :: char where "comma = CHR '',''"
definition dquote :: char where "dquote = CHR 0x22"
definition space :: char where "space = CHR '' ''"

text \<open>\<^verbatim>\<open>sep.join(xs)\<close>\<close>

fun str_join :: "string \<Rightarrow> string list \<Rightarrow> string" where
  "str_join sep [] = []"
| "str_join sep [x] = x"
| "str_join sep (x # y # ys) = x @ sep @ str_join sep (y # ys)"

text \<open>\<^verbatim>\<open>'{:<{}}'.format(s, n)\<close>: \<open>s\<close> padded with spaces on the right to \<open>n\<close> characters.\<close>

definition format_left :: "string \<Rightarrow> nat \<Rightarrow> string" where
  "format_left s n = s @ replicate (n - length s) space"

subsection \<open>Exceptions\<close>

datatype error =
    ValueError string
  | AttributeError string
  | TypeError string
  | CsvError string

subsection \<open>The log file\<close>

text \<open>
  \<^verbatim>\<open>FileOutput.__init__\<close> opens the file with \<^verbatim>\<open>open(file_name, 'w')\<close>: text mode,
  empty, position 0. On a closed file every operation raises \<^verbatim>\<open>ValueError\<close>. Line
  endings are those of a POSIX system, where text mode writes \<^verbatim>\<open>'\n'\<close> and
  \<^verbatim>\<open>'\r\n'\<close> as they are.
\<close>

record text_file =
  content :: string
  position :: nat
  closed :: bool

text \<open>
  Writing \<open>s\<close> at position \<open>p\<close> of the text \<open>c\<close> replaces what is there and
  extends the text where \<open>s\<close> runs past its end.
\<close>

definition overwrite :: "nat \<Rightarrow> string \<Rightarrow> string \<Rightarrow> string" where
  "overwrite p s c = take p c @ replicate (p - length c) NUL @ s @ drop (p + length s) c"

definition file_write :: "string \<Rightarrow> text_file \<Rightarrow> text_file option" where
  "file_write s f =
     (if closed f then None
      else Some (f\<lparr>content := overwrite (position f) s (content f),
                   position := position f + length s\<rparr>))"

text \<open>\<^verbatim>\<open>seek(0)\<close> and \<^verbatim>\<open>seek(0, 2)\<close>\<close>

definition file_seek_start :: "text_file \<Rightarrow> text_file option" where
  "file_seek_start f = (if closed f then None else Some (f\<lparr>position := 0\<rparr>))"

definition file_seek_end :: "text_file \<Rightarrow> text_file option" where
  "file_seek_end f = (if closed f then None else Some (f\<lparr>position := length (content f)\<rparr>))"

subsection \<open>The record abstraction\<close>

text \<open>
  Modelled from the spec: \<^verbatim>\<open>dowel.TabularInput\<close> is not among the sources. The spec
  gives it as an ordered mapping of field name to primitive value for the current tick
  (\<^verbatim>\<open>as_primitive_dict\<close>) and a method that marks a field name as consumed
  (\<^verbatim>\<open>mark\<close>). A value is kept as the text \<^verbatim>\<open>str\<close> gives for it, which is all
  the CSV writer uses.
\<close>

record tabular_input =
  as_primitive_dict :: "(string \<times> string) list"
  recorded :: "string set"

definition mark :: "string \<Rightarrow> tabular_input \<Rightarrow> tabular_input" where
  "mark k d = d\<lparr>recorded := insert k (recorded d)\<rparr>"

text \<open>
  The argument of \<^verbatim>\<open>record\<close>: a \<^verbatim>\<open>TabularInput\<close> or any other object; of the
  other objects a few kinds are enough, since the code only tests \<^verbatim>\<open>isinstance\<close>.
\<close>

datatype py_value = PyStr string | PyInt int | PyNone

datatype log_data = TabularInput tabular_input | OtherInput py_value

text \<open>\<^verbatim>\<open>d.get(k, '')\<close> on a dict in insertion order\<close>

definition dict_get :: "(string \<times> string) list \<Rightarrow> string \<Rightarrow> string" where
  "dict_get d k = (case map_of d k of None \<Rightarrow> [] | Some v \<Rightarrow> v)"

subsection \<open>The CSV writer of the standard library\<close>

text \<open>
  \<^verbatim>\<open>csv.writer\<close> with the default dialect (\<^verbatim>\<open>excel\<close>): delimiter \<^verbatim>\<open>,\<close>, quote
  character \<^verbatim>\<open>"\<close> doubled inside a quoted field, \<^verbatim>\<open>QUOTE_MINIMAL\<close>, line
  terminator \<^verbatim>\<open>'\r\n'\<close>. A field is quoted when it holds the delimiter, the quote
  character or a character of the line terminator; a row of one empty field is written
  as \<^verbatim>\<open>""\<close>.
\<close>

definition CRLF :: string where "CRLF = [CR, LF]"

definition special :: "char \<Rightarrow> bool" where
  "special c \<longleftrightarrow> c = comma \<or> c = dquote \<or> c = CR \<or> c = LF"

definition escape_quotes :: "string \<Rightarrow> string" where
  "escape_quotes s = concat (map (\<lambda>c. if c = dquote then [dquote, dquote] else [c]) s)"

definition csv_field :: "string \<Rightarrow> string" where
  "csv_field s = (if list_ex special s then [dquote] @ escape_quotes s @ [dquote] else s)"

definition csv_writerow :: "string list \<Rightarrow> string" where
  "csv_writerow row =
     (if row = [[]] then [dquote, dquote] else str_join [comma] (map csv_field row)) @ CRLF"

text \<open>
  \<^verbatim>\<open>csv.DictWriter(f, fieldnames, extrasaction='ignore')\<close>: \<^verbatim>\<open>writerow\<close> writes
  \<^verbatim>\<open>rowdict.get(key, '')\<close> for each key of \<^verbatim>\<open>fieldnames\<close>, \<^verbatim>\<open>writeheader\<close> writes
  the row \<^verbatim>\<open>dict(zip(fieldnames, fieldnames))\<close>.
\<close>

definition dict_to_list :: "string list \<Rightarrow> (string \<times> string) list \<Rightarrow> string list" where
  "dict_to_list fns rowdict = map (dict_get rowdict) fns"

definition row_text :: "string list \<Rightarrow> (string \<times> string) list \<Rightarrow> string" where
  "row_text fns rowdict = csv_writerow (dict_to_list fns rowdict)"

definition header_text :: "string list \<Rightarrow> string" where
  "header_text fns = row_text fns (zip fns fns)"

subsection \<open>What Python leaves open\<close>

text \<open>
  The order in which a \<^verbatim>\<open>set\<close> of strings is iterated depends on the hash seed of the
  process. \<open>set_list\<close> is \<^verbatim>\<open>list(s)\<close> and \<open>set_repr\<close> is \<^verbatim>\<open>str(s)\<close>; all that
  is known of \<open>set_list\<close> is that it lists each element once.
\<close>

record py_env =
  set_list :: "string set \<Rightarrow> string list"
  set_repr :: "string set \<Rightarrow> string"

definition valid_env :: "py_env \<Rightarrow> bool" where
  "valid_env env \<longleftrightarrow>
     (\<forall>S. finite S \<longrightarrow> set (set_list env S) = S \<and> distinct (set_list env S))"

subsection \<open>\<^verbatim>\<open>CsvOutput\<close>\<close>

text \<open>
  \<open>writer\<close> is the \<^verbatim>\<open>csv.DictWriter\<close>, kept as its \<^verbatim>\<open>fieldnames\<close> list (it
  writes to \<open>log_file\<close>); \<open>warnings\<close> lists the messages handed to
  \<^verbatim>\<open>warnings.warn\<close>, oldest first.
\<close>

record csv_output =
  inconsistency_handling :: "string option"
  header_length :: nat
  log_file :: text_file
  writer :: "string list option"
  fieldnames :: "string set option"
  warned_once :: "string set"
  disable_warnings :: bool
  warnings :: "string list"

datatype 'r outcome = Return csv_output 'r | Raise csv_output error

fun and_then :: "unit outcome \<Rightarrow> (csv_output \<Rightarrow> 'r outcome) \<Rightarrow> 'r outcome" where
  "and_then (Return st u) k = k st"
| "and_then (Raise st e) k = Raise st e"

definition init :: "string option \<Rightarrow> nat \<Rightarrow> csv_output" where
  "init implementation hl =
     \<lparr>inconsistency_handling = implementation,
      header_length = hl,
      log_file = \<lparr>content = [], position = 0, closed = False\<rparr>,
      writer = None,
      fieldnames = None,
      warned_once = {},
      disable_warnings = False,
      warnings = []\<rparr>"

text \<open>Python's truth value of \<^verbatim>\<open>self._inconsistency_handling\<close>\<close>

definition truthy :: "string option \<Rightarrow> bool" where
  "truthy h \<longleftrightarrow> h \<noteq> None \<and> h \<noteq> Some []"

definition closed_file_error :: error where
  "closed_file_error = ValueError ''I/O operation on closed file.''"

definition write_log :: "string \<Rightarrow> csv_output \<Rightarrow> unit outcome" where
  "write_log s st =
     (case file_write s (log_file st) of
        None \<Rightarrow> Raise st closed_file_error
      | Some f \<Rightarrow> Return (st\<lparr>log_file := f\<rparr>) ())"

definition seek_start :: "csv_output \<Rightarrow> unit outcome" where
  "seek_start st =
     (case file_seek_start (log_file st) of
        None \<Rightarrow> Raise st closed_file_error
      | Some f \<Rightarrow> Return (st\<lparr>log_file := f\<rparr>) ())"

definition seek_end :: "csv_output \<Rightarrow> unit outcome" where
  "seek_end st =
     (case file_seek_end (log_file st) of
        None \<Rightarrow> Raise st closed_file_error
      | Some f \<Rightarrow> Return (st\<lparr>log_file := f\<rparr>) ())"

text \<open>\<^verbatim>\<open>_warn\<close> and \<^verbatim>\<open>disable_warnings\<close>\<close>

definition warn :: "string \<Rightarrow> csv_output \<Rightarrow> csv_output" where
  "warn msg st =
     st\<lparr>warnings :=
          (if \<not> disable_warnings st \<and> msg \<notin> warned_once st
           then warnings st @ [msg] else warnings st),
        warned_once := insert msg (warned_once st)\<rparr>"

definition disable_warnings_op :: "csv_output \<Rightarrow> csv_output" where
  "disable_warnings_op st = st\<lparr>disable_warnings := True\<rparr>"

definition inconsistent_msg :: "py_env \<Rightarrow> string set \<Rightarrow> string set \<Rightarrow> string" where
  "inconsistent_msg env F K =
     ''Inconsistent TabularInput keys detected. CsvOutput keys: '' @ set_repr env F
     @ ''. TabularInput keys: '' @ set_repr env K
     @ ''. Did you change key sets after your first logger.log(TabularInput)?''"

text \<open>Lines 57 to 72 of \<^verbatim>\<open>record\<close>: the first record with keys creates the writer.\<close>

definition start_writer :: "string list \<Rightarrow> csv_output \<Rightarrow> unit outcome" where
  "start_writer ks st =
     (let st1 = st\<lparr>fieldnames := Some (set ks), writer := Some ks\<rparr> in
      if inconsistency_handling st1 = Some ''fixed_header_length'' then
        (let header = str_join [comma] ks;
             header_padded = format_left header (header_length st1);
             header_trucated = take (header_length st1) header_padded @ CRLF
         in write_log header_trucated st1)
      else write_log (header_text ks) st1)"

text \<open>Lines 74 to 99: the key set differs from \<^verbatim>\<open>self._fieldnames\<close>.\<close>

definition rewrite_header :: "string list \<Rightarrow> csv_output \<Rightarrow> unit outcome" where
  "rewrite_header fns st =
     and_then (seek_start st) (\<lambda>st1.
       let header = str_join [comma] fns;
           hl = min (length header) (header_length st1);
           header_trucated = take hl header
       in and_then (write_log header_trucated st1) seek_end)"

definition handle_inconsistent :: "py_env \<Rightarrow> string list \<Rightarrow> csv_output \<Rightarrow> unit outcome" where
  "handle_inconsistent env ks st =
     (case fieldnames st of
        None \<Rightarrow> Raise st (TypeError ''NoneType object is not iterable'')
      | Some F \<Rightarrow>
          (let st1 = warn (inconsistent_msg env F (set ks)) st in
           if truthy (inconsistency_handling st1) then
             (let fieldnames_new = set ks - F in
              if fieldnames_new \<noteq> {} then
                (let st2 = st1\<lparr>fieldnames := Some (F \<union> fieldnames_new)\<rparr> in
                 case writer st2 of
                   None \<Rightarrow> Raise st2 (AttributeError ''NoneType object has no attribute fieldnames'')
                 | Some fns \<Rightarrow>
                     (let fns' = fns @ set_list env fieldnames_new;
                          st3 = st2\<lparr>writer := Some fns'\<rparr>
                      in if inconsistency_handling st3 = Some ''fixed_header_length''
                         then rewrite_header fns' st3
                         else Return st3 ()))
              else Return st1 ())
           else Return st1 ()))"

text \<open>Line 101: \<^verbatim>\<open>self._writer.writerow(to_csv)\<close>\<close>

definition writerow :: "(string \<times> string) list \<Rightarrow> csv_output \<Rightarrow> unit outcome" where
  "writerow to_csv st =
     (case writer st of
        None \<Rightarrow> Raise st (AttributeError ''NoneType object has no attribute writerow'')
      | Some fns \<Rightarrow> write_log (row_text fns to_csv) st)"

text \<open>\<^verbatim>\<open>CsvOutput.record\<close>; the result is the input with its marks.\<close>

definition record_data :: "py_env \<Rightarrow> csv_output \<Rightarrow> log_data \<Rightarrow> tabular_input outcome" where
  "record_data env st data =
     (case data of
        OtherInput x \<Rightarrow> Raise st (ValueError ''Unacceptable type.'')
      | TabularInput d \<Rightarrow>
          (let to_csv = as_primitive_dict d; ks = map fst to_csv in
           if ks = [] \<and> writer st = None then Return st d
           else
             and_then (if writer st = None then start_writer ks st else Return st ()) (\<lambda>st1.
             and_then (if fieldnames st1 \<noteq> Some (set ks)
                       then handle_inconsistent env ks st1 else Return st1 ()) (\<lambda>st2.
             and_then (writerow to_csv st2) (\<lambda>st3.
             Return st3 (fold mark ks d))))))"

subsection \<open>The CSV reader of the standard library\<close>

text \<open>
  \<^verbatim>\<open>csv.reader\<close> with the default dialect is the automaton of \<^verbatim>\<open>_csv.c\<close>: it is
  fed the characters of each line and then the end of the line (\<open>None\<close>), and a row
  is complete when it is back in \<open>START_RECORD\<close>. The dialect has no escape character,
  does not skip initial spaces and is not strict. \<^verbatim>\<open>csv.field_size_limit()\<close> is taken
  as not reached.
\<close>

datatype parser_state =
  START_RECORD | START_FIELD | IN_FIELD | IN_QUOTED_FIELD | QUOTE_IN_QUOTED_FIELD | EAT_CRNL

record reader =
  pstate :: parser_state
  pfields :: "string list"
  pfield :: string

definition parse_reset :: reader where
  "parse_reset = \<lparr>pstate = START_RECORD, pfields = [], pfield = []\<rparr>"

definition parse_save_field :: "reader \<Rightarrow> reader" where
  "parse_save_field r = r\<lparr>pfields := pfields r @ [pfield r], pfield := []\<rparr>"

definition parse_add_char :: "char \<Rightarrow> reader \<Rightarrow> reader" where
  "parse_add_char c r = r\<lparr>pfield := pfield r @ [c]\<rparr>"

text \<open>The end of a field at the end of a line: \<open>None\<close> is the end of the line itself.\<close>

definition end_record :: "char option \<Rightarrow> reader \<Rightarrow> reader" where
  "end_record c r =
     (parse_save_field r)\<lparr>pstate := (if c = None then START_RECORD else EAT_CRNL)\<rparr>"

definition is_newline :: "char option \<Rightarrow> bool" where
  "is_newline c \<longleftrightarrow> c = Some LF \<or> c = Some CR"

definition start_field :: "char option \<Rightarrow> reader \<Rightarrow> reader" where
  "start_field c r =
     (case c of
        None \<Rightarrow> end_record c r
      | Some ch \<Rightarrow>
          if is_newline c then end_record c r
          else if ch = dquote then r\<lparr>pstate := IN_QUOTED_FIELD\<rparr>
          else if ch = comma then parse_save_field r
          else (parse_add_char ch r)\<lparr>pstate := IN_FIELD\<rparr>)"

definition newline_error :: error where
  "newline_error = CsvError ''new-line character seen in unquoted field''"

definition parse_process_char :: "char option \<Rightarrow> reader \<Rightarrow> error + reader" where
  "parse_process_char c r =
     (case pstate r of
        START_RECORD \<Rightarrow>
          (if c = None then Inr r
           else if is_newline c then Inr (r\<lparr>pstate := EAT_CRNL\<rparr>)
           else Inr (start_field c (r\<lparr>pstate := START_FIELD\<rparr>)))
      | START_FIELD \<Rightarrow> Inr (start_field c r)
      | IN_FIELD \<Rightarrow>
          (case c of
             None \<Rightarrow> Inr (end_record c r)
           | Some ch \<Rightarrow>
               if is_newline c then Inr (end_record c r)
               else if ch = comma then Inr ((parse_save_field r)\<lparr>pstate := START_FIELD\<rparr>)
               else Inr (parse_add_char ch r))
      | IN_QUOTED_FIELD \<Rightarrow>
          (case c of
             None \<Rightarrow> Inr r
           | Some ch \<Rightarrow>
               if ch = dquote then Inr (r\<lparr>pstate := QUOTE_IN_QUOTED_FIELD\<rparr>)
               else Inr (parse_add_char ch r))
      | QUOTE_IN_QUOTED_FIELD \<Rightarrow>
          (case c of
             None \<Rightarrow> Inr (end_record c r)
           | Some ch \<Rightarrow>
               if ch = dquote then Inr ((parse_add_char ch r)\<lparr>pstate := IN_QUOTED_FIELD\<rparr>)
               else if ch = comma then Inr ((parse_save_field r)\<lparr>pstate := START_FIELD\<rparr>)
               else if is_newline c then Inr (end_record c r)
               else Inr ((parse_add_char ch r)\<lparr>pstate := IN_FIELD\<rparr>))
      | EAT_CRNL \<Rightarrow>
          (if is_newline c then Inr r
           else if c = None then Inr (r\<lparr>pstate := START_RECORD\<rparr>)
           else Inl newline_error))"

fun feed_chars :: "string \<Rightarrow> reader \<Rightarrow> error + reader" where
  "feed_chars [] r = Inr r"
| "feed_chars (c # cs) r =
     (case parse_process_char (Some c) r of
        Inl e \<Rightarrow> Inl e
      | Inr r' \<Rightarrow> feed_chars cs r')"

definition feed_line :: "string \<Rightarrow> reader \<Rightarrow> error + reader" where
  "feed_line l r =
     (case feed_chars l r of
        Inl e \<Rightarrow> Inl e
      | Inr r' \<Rightarrow> parse_process_char None r')"

subsection \<open>\<^verbatim>\<open>CsvOutput.close\<close>\<close>

text \<open>
  \<^verbatim>\<open>fileinput.input(files=..., inplace=True)\<close> reads the file in text mode with
  universal newlines: each of \<^verbatim>\<open>'\n'\<close>, \<^verbatim>\<open>'\r'\<close> and \<^verbatim>\<open>'\r\n'\<close> ends a line and
  is read as \<^verbatim>\<open>'\n'\<close>. \<open>readlines cr cur s\<close> lists the lines of \<open>s\<close>; \<open>cur\<close> is
  the line read so far and \<open>cr\<close> says that the last character was \<^verbatim>\<open>'\r'\<close>.
\<close>

fun readlines :: "bool \<Rightarrow> string \<Rightarrow> string \<Rightarrow> string list" where
  "readlines cr cur [] = (if cur = [] then [] else [cur])"
| "readlines cr cur (c # cs) =
     (if c = LF then
        (if cr then readlines False cur cs else (cur @ [LF]) # readlines False [] cs)
      else if c = CR then (cur @ [LF]) # readlines True [] cs
      else readlines False (cur @ [c]) cs)"

text \<open>
  The row of \<^verbatim>\<open>csv.DictReader(f, fieldnames=fieldnames, restval='')\<close> as the
  assignments that build it, and \<^verbatim>\<open>[row.get(key, '') for key in fieldnames]\<close>.
\<close>

definition dict_reader_row :: "string list \<Rightarrow> string list \<Rightarrow> (string \<times> string) list" where
  "dict_reader_row fns row = rev (zip fns (row @ replicate (length fns - length row) []))"

definition copied_values :: "string list \<Rightarrow> string list \<Rightarrow> string list" where
  "copied_values fns row = map (dict_get (dict_reader_row fns row)) fns"

text \<open>
  The loop \<^verbatim>\<open>for row in reader\<close> over the lines still to read: \<open>r\<close> is the state of
  the reader, \<open>n\<close> the number of lines read (\<^verbatim>\<open>f.isfirstline()\<close> is \<open>n = 1\<close>) and
  \<open>out\<close> what \<^verbatim>\<open>print\<close> has written to the new file. \<^verbatim>\<open>DictReader\<close> skips the
  rows that are \<^verbatim>\<open>[]\<close>. When the lines run out \<^verbatim>\<open>fileinput\<close> has closed the new
  file, so a last row whose quote was never closed does not reach it.
\<close>

fun copy_rows :: "string list \<Rightarrow> reader \<Rightarrow> nat \<Rightarrow> string list \<Rightarrow> string \<Rightarrow> string \<times> error option" where
  "copy_rows fns r n [] out = (out, None)"
| "copy_rows fns r n (l # ls) out =
     (case feed_line l r of
        Inl e \<Rightarrow> (out, Some e)
      | Inr r' \<Rightarrow>
          if pstate r' = START_RECORD then
            (if pfields r' = [] then copy_rows fns parse_reset (Suc n) ls out
             else if Suc n = 1 then
               copy_rows fns parse_reset (Suc n) ls (out @ str_join [comma] fns @ [LF])
             else
               copy_rows fns parse_reset (Suc n) ls
                 (out @ str_join [comma] (copied_values fns (pfields r')) @ [LF]))
          else copy_rows fns r' (Suc n) ls out)"

text \<open>
  Modelled from the spec: \<^verbatim>\<open>FileOutput.close\<close> (\<^verbatim>\<open>dowel/simple_outputs.py\<close>) is not
  among the sources; the spec has the output stream closed at the end of the writer's
  life.
\<close>

definition file_output_close :: "csv_output \<Rightarrow> csv_output" where
  "file_output_close st = st\<lparr>log_file := (log_file st)\<lparr>closed := True\<rparr>\<rparr>"

definition close :: "csv_output \<Rightarrow> unit outcome" where
  "close st =
     (let st1 = file_output_close st in
      if inconsistency_handling st1 = Some ''copy'' then
        (case writer st1 of
           None \<Rightarrow> Raise st1 (AttributeError ''NoneType object has no attribute fieldnames'')
         | Some fns \<Rightarrow>
             (case copy_rows fns parse_reset 0 (readlines False [] (content (log_file st1))) [] of
                (out, None) \<Rightarrow> Return (st1\<lparr>log_file := (log_file st1)\<lparr>content := out\<rparr>\<rparr>) ()
              | (out, Some e) \<Rightarrow> Raise (st1\<lparr>log_file := (log_file st1)\<lparr>content := out\<rparr>\<rparr>) e))
      else Return st1 ())"

text \<open>A sequence of calls of \<^verbatim>\<open>record\<close> on one output; it stops at the first exception.\<close>

fun record_all :: "py_env \<Rightarrow> csv_output \<Rightarrow> tabular_input list \<Rightarrow> unit outcome" where
  "record_all env st [] = Return st ()"
| "record_all env st (d # ds) =
     (case record_data env st (TabularInput d) of
        Raise st' e \<Rightarrow> Raise st' e
      | Return st' d' \<Rightarrow> record_all env st' ds)"

subsection \<open>States in which the file is open and positioned at its end\<close>

definition at_end :: "text_file \<Rightarrow> bool" where
  "at_end f \<longleftrightarrow> \<not> closed f \<and> position f = length (content f)"

definition append_log :: "string \<Rightarrow> csv_output \<Rightarrow> csv_output" where
  "append_log s st =
     st\<lparr>log_file := (log_file st)\<lparr>content := content (log_file st) @ s,
                                    position := length (content (log_file st)) + length s\<rparr>\<rparr>"

text \<open>The file after the first characters of its header line have been written over.\<close>

definition patch_header :: "string list \<Rightarrow> csv_output \<Rightarrow> csv_output" where
  "patch_header fns st =
     st\<lparr>log_file := (log_file st)
          \<lparr>content := overwrite 0 (take (header_length st) (str_join [comma] fns))
                        (content (log_file st)),
           position := length (overwrite 0 (take (header_length st) (str_join [comma] fns))
                                 (content (log_file st)))\<rparr>\<rparr>"

text \<open>An outcome that is the exception of \<^verbatim>\<open>record\<close> for an argument of the wrong type.\<close>

definition unacceptable :: "'r outcome \<Rightarrow> bool" where
  "unacceptable r \<longleftrightarrow> (\<exists>st. r = Raise st (ValueError ''Unacceptable type.''))"

text \<open>
  The state \<^verbatim>\<open>record\<close> keeps between calls: the file is open and at its end, and the
  writer and \<^verbatim>\<open>self._fieldnames\<close> are both there or both missing.
\<close>

definition consistent :: "csv_output \<Rightarrow> bool" where
  "consistent st \<longleftrightarrow> at_end (log_file st) \<and> (writer st = None \<longleftrightarrow> fieldnames st = None)"

text \<open>
  The state that lines 74 to 99 leave when the file is open, the field names are \<open>fns\<close>
  and \<^verbatim>\<open>self._fieldnames\<close> is \<open>F\<close>.
\<close>

definition reconciled ::
  "py_env \<Rightarrow> string list \<Rightarrow> string set \<Rightarrow> string list \<Rightarrow> csv_output \<Rightarrow> csv_output" where
  "reconciled env ks F fns st =
     (let st1 = warn (inconsistent_msg env F (set ks)) st in
      if truthy (inconsistency_handling st) \<and> set ks - F \<noteq> {} then
        (let st3 = st1\<lparr>fieldnames := Some (F \<union> (set ks - F)),
                       writer := Some (fns @ set_list env (set ks - F))\<rparr>
         in if inconsistency_handling st = Some ''fixed_header_length''
            then patch_header (fns @ set_list env (set ks - F)) st3 else st3)
      else st1)"

text \<open>
  What holds of every state reached in fixed-header-length mode: before the writer
  exists the file is empty, afterwards its header line is \<open>header_length\<close> characters
  and the line terminator.
\<close>

definition fixed_inv :: "csv_output \<Rightarrow> bool" where
  "fixed_inv st \<longleftrightarrow>
     inconsistency_handling st = Some ''fixed_header_length'' \<and> consistent st \<and>
     (case writer st of
        None \<Rightarrow> content (log_file st) = []
      | Some fns \<Rightarrow>
          header_length st + 2 \<le> length (content (log_file st)) \<and>
          take 2 (drop (header_length st) (content (log_file st))) = CRLF)"

text \<open>
  What holds of the warnings of every state reached without \<^verbatim>\<open>disable_warnings\<close>:
  each warned message was emitted, once.
\<close>

definition winv :: "csv_output \<Rightarrow> bool" where
  "winv st \<longleftrightarrow>
     \<not> disable_warnings st \<and> distinct (warnings st) \<and> set (warnings st) = warned_once st"

text \<open>A string with no line break, and a record whose keys are distinct and whose
  keys and values all are such strings.\<close>

definition one_line :: "string \<Rightarrow> bool" where
  "one_line s \<longleftrightarrow> CR \<notin> set s \<and> LF \<notin> set s"

definition plain_record :: "tabular_input \<Rightarrow> bool" where
  "plain_record d \<longleftrightarrow>
     distinct (map fst (as_primitive_dict d)) \<and>
     list_all (\<lambda>(k, v). one_line k \<and> one_line v) (as_primitive_dict d)"

text \<open>The text of a row before its line terminator.\<close>

definition csv_line :: "string list \<Rightarrow> string" where
  "csv_line row = (if row = [[]] then [dquote, dquote] else str_join [comma] (map csv_field row))"

text \<open>
  In copy mode the file is the header line of the first schema \<open>fns0\<close> followed by one
  row per record written; the row \<open>r\<close> of the record \<open>d\<close> holds the values of \<open>d\<close> at
  an initial part \<open>S\<close> of the present field names that has all the keys of \<open>d\<close>.
\<close>

definition row_of :: "string list \<Rightarrow> tabular_input \<Rightarrow> string list \<Rightarrow> bool" where
  "row_of fns d r \<longleftrightarrow>
     (\<exists>S. S \<noteq> [] \<and> prefix S fns \<and> set (map fst (as_primitive_dict d)) \<subseteq> set S
          \<and> r = dict_to_list S (as_primitive_dict d))"

definition copy_state ::
  "csv_output \<Rightarrow> string list \<Rightarrow> string list \<Rightarrow> tabular_input list \<Rightarrow> bool" where
  "copy_state st fns0 fns ds \<longleftrightarrow>
     inconsistency_handling st = Some ''copy'' \<and> at_end (log_file st) \<and>
     writer st = Some fns \<and> fieldnames st = Some (set fns) \<and> distinct fns \<and>
     fns \<noteq> [] \<and> fns0 \<noteq> [] \<and>
     (\<exists>rows. content (log_file st) = csv_writerow fns0 @ concat (map csv_writerow rows)
             \<and> list_all2 (row_of fns) ds rows)"

text \<open>The state a call leaves, returned or raised, and what it returned.\<close>

fun state_of :: "'r outcome \<Rightarrow> csv_output" where
  "state_of (Return st r) = st"
| "state_of (Raise st e) = st"

fun returned :: "'r outcome \<Rightarrow> 'r option" where
  "returned (Return st r) = Some r"
| "returned (Raise st e) = None"

subsection \<open>Concrete inputs\<close>

text \<open>An interpreter whose sets iterate in alphabetical order.\<close>

definition sorted_env :: py_env where
  "sorted_env = \<lparr>set_list = sorted_list_of_set,
                 set_repr = (\<lambda>S. ''{'' @ str_join '', '' (sorted_list_of_set S) @ ''}'')\<rparr>"

text \<open>A fresh \<^verbatim>\<open>TabularInput\<close> after \<^verbatim>\<open>record(key, value)\<close> for each pair.\<close>

definition tabular :: "(string \<times> string) list \<Rightarrow> tabular_input" where
  "tabular kvs = \<lparr>as_primitive_dict = kvs, recorded = {}\<rparr>"

definition empty_tabular :: tabular_input where
  "empty_tabular = tabular []"

definition foo1 :: tabular_input where
  "foo1 = tabular [(''foo'', ''1'')]"

definition foo2_bar20 :: tabular_input where
  "foo2_bar20 = tabular [(''foo'', ''2''), (''bar'', ''20'')]"

definition foo1_barbaz2 :: tabular_input where
  "foo1_barbaz2 = tabular [(''foo'', ''1''), (''barbaz'', ''2'')]"

definition a1 :: tabular_input where
  "a1 = tabular [(''a'', ''1'')]"

definition y2_x3 :: tabular_input where
  "y2_x3 = tabular [(''y'', ''2''), (''x'', ''3'')]"

definition bar30_foo3 :: tabular_input where
  "bar30_foo3 = tabular [(''bar'', ''30''), (''foo'', ''3'')]"

definition a_xy :: tabular_input where
  "a_xy = tabular [(''a'', ''x,y'')]"

definition a1_b2 :: tabular_input where
  "a1_b2 = tabular [(''a'', ''1''), (''b'', ''2'')]"

definition x3_b4 :: tabular_input where
  "x3_b4 = tabular [(''x'', ''3''), (''b'', ''4'')]"

section \<open>The steps of \<^verbatim>\<open>record\<close> on an open file\<close>

lemma overwrite_end: "overwrite (length c) s c = c @ s"
  by (simp add: overwrite_def)

lemma overwrite_start: "overwrite 0 s c = s @ drop (length s) c"
  by (simp add: overwrite_def)

lemma write_log_at_end:
  "at_end (log_file st) \<Longrightarrow> write_log s st = Return (append_log s st) ()"
  by (simp add: write_log_def file_write_def at_end_def append_log_def overwrite_end)

lemma at_end_append_log: "at_end (log_file st) \<Longrightarrow> at_end (log_file (append_log s st))"
  by (simp add: at_end_def append_log_def)

lemma append_log_simps [simp]:
  "writer (append_log s st) = writer st"
  "fieldnames (append_log s st) = fieldnames st"
  "inconsistency_handling (append_log s st) = inconsistency_handling st"
  "header_length (append_log s st) = header_length st"
  "warnings (append_log s st) = warnings st"
  "warned_once (append_log s st) = warned_once st"
  "disable_warnings (append_log s st) = disable_warnings st"
  "content (log_file (append_log s st)) = content (log_file st) @ s"
  by (simp_all add: append_log_def)

lemma warn_simps [simp]:
  "writer (warn m st) = writer st"
  "fieldnames (warn m st) = fieldnames st"
  "inconsistency_handling (warn m st) = inconsistency_handling st"
  "header_length (warn m st) = header_length st"
  "log_file (warn m st) = log_file st"
  "disable_warnings (warn m st) = disable_warnings st"
  "warned_once (warn m st) = insert m (warned_once st)"
  by (simp_all add: warn_def)

lemma start_writer_at_end:
  "at_end (log_file st) \<Longrightarrow>
   start_writer ks st =
     Return (append_log
               (if inconsistency_handling st = Some ''fixed_header_length''
                then take (header_length st)
                       (format_left (str_join [comma] ks) (header_length st)) @ CRLF
                else header_text ks)
               (st\<lparr>fieldnames := Some (set ks), writer := Some ks\<rparr>)) ()"
  by (simp add: start_writer_def Let_def write_log_at_end)

lemma rewrite_header_at_end:
  "at_end (log_file st) \<Longrightarrow> rewrite_header fns st = Return (patch_header fns st) ()"
  by (simp add: rewrite_header_def seek_start_def file_seek_start_def at_end_def Let_def
      write_log_def file_write_def seek_end_def file_seek_end_def min_def patch_header_def)

lemma writerow_at_end:
  "at_end (log_file st) \<Longrightarrow> writer st = Some fns \<Longrightarrow>
   writerow to_csv st = Return (append_log (row_text fns to_csv) st) ()"
  by (simp add: writerow_def write_log_at_end)

lemma handle_inconsistent_at_end:
  assumes "at_end (log_file st)" "writer st = Some fns" "fieldnames st = Some F"
  shows "handle_inconsistent env ks st =
     Return
       (let st1 = warn (inconsistent_msg env F (set ks)) st in
        if truthy (inconsistency_handling st) \<and> set ks - F \<noteq> {} then
          (let st3 = st1\<lparr>fieldnames := Some (F \<union> (set ks - F)),
                         writer := Some (fns @ set_list env (set ks - F))\<rparr>
           in if inconsistency_handling st = Some ''fixed_header_length''
              then patch_header (fns @ set_list env (set ks - F)) st3 else st3)
        else st1) ()"
  using assms
  by (simp add: handle_inconsistent_def Let_def rewrite_header_at_end)

lemma record_data_noop:
  "writer st = None \<Longrightarrow> as_primitive_dict d = [] \<Longrightarrow>
   record_data env st (TabularInput d) = Return st d"
  by (simp add: record_data_def)

lemma record_data_commit:
  assumes "at_end (log_file st)" "writer st = None" "as_primitive_dict d \<noteq> []"
  shows "record_data env st (TabularInput d) =
     Return (append_log (row_text (map fst (as_primitive_dict d)) (as_primitive_dict d))
              (append_log
               (if inconsistency_handling st = Some ''fixed_header_length''
                then take (header_length st)
                       (format_left (str_join [comma] (map fst (as_primitive_dict d)))
                          (header_length st)) @ CRLF
                else header_text (map fst (as_primitive_dict d)))
               (st\<lparr>fieldnames := Some (set (map fst (as_primitive_dict d))),
                    writer := Some (map fst (as_primitive_dict d))\<rparr>)))
            (fold mark (map fst (as_primitive_dict d)) d)"
  using assms
  by (simp add: record_data_def Let_def start_writer_at_end writerow_at_end at_end_append_log)

lemma record_data_same:
  assumes "at_end (log_file st)" "writer st = Some fns"
    "fieldnames st = Some (set (map fst (as_primitive_dict d)))"
  shows "record_data env st (TabularInput d) =
     Return (append_log (row_text fns (as_primitive_dict d)) st)
            (fold mark (map fst (as_primitive_dict d)) d)"
  using assms
  by (simp add: record_data_def Let_def writerow_at_end)

lemma record_data_differ:
  assumes "writer st = Some fns" "fieldnames st \<noteq> Some (set (map fst (as_primitive_dict d)))"
  shows "record_data env st (TabularInput d) =
     and_then (handle_inconsistent env (map fst (as_primitive_dict d)) st) (\<lambda>st2.
     and_then (writerow (as_primitive_dict d) st2) (\<lambda>st3.
     Return st3 (fold mark (map fst (as_primitive_dict d)) d)))"
  using assms
  by (simp add: record_data_def Let_def)

section \<open>Arguments of the wrong type\<close>

lemma unacceptable_and_then:
  "\<not> unacceptable a \<Longrightarrow> (\<And>st. \<not> unacceptable (k st)) \<Longrightarrow> \<not> unacceptable (and_then a k)"
  by (cases a) (simp_all add: unacceptable_def)

lemma unacceptable_Return [simp]: "\<not> unacceptable (Return st r)"
  by (simp add: unacceptable_def)

lemma unacceptable_write_log [simp]: "\<not> unacceptable (write_log s st)"
  by (simp add: write_log_def unacceptable_def closed_file_error_def split: option.splits)

lemma unacceptable_seek_start [simp]: "\<not> unacceptable (seek_start st)"
  by (simp add: seek_start_def unacceptable_def closed_file_error_def split: option.splits)

lemma unacceptable_seek_end [simp]: "\<not> unacceptable (seek_end st)"
  by (simp add: seek_end_def unacceptable_def closed_file_error_def split: option.splits)

lemma unacceptable_start_writer [simp]: "\<not> unacceptable (start_writer ks st)"
  by (simp add: start_writer_def Let_def)

lemma unacceptable_rewrite_header [simp]: "\<not> unacceptable (rewrite_header fns st)"
  unfolding rewrite_header_def Let_def
  by (intro unacceptable_and_then) simp_all

lemma unacceptable_handle_inconsistent [simp]: "\<not> unacceptable (handle_inconsistent env ks st)"
  by (simp add: handle_inconsistent_def Let_def unacceptable_def [of "Raise _ _"]
      split: option.splits)

lemma unacceptable_writerow [simp]: "\<not> unacceptable (writerow to_csv st)"
  by (simp add: writerow_def unacceptable_def [of "Raise _ _"] split: option.splits)

lemma unacceptable_tabular: "\<not> unacceptable (record_data env st (TabularInput d))"
  unfolding record_data_def Let_def log_data.case
  by (simp only: split: if_split, intro conjI impI unacceptable_and_then) simp_all

text \<open>
  C9. \<^verbatim>\<open>record\<close> with an argument that is not a \<^verbatim>\<open>TabularInput\<close> raises
  \<^verbatim>\<open>ValueError('Unacceptable type.')\<close> and leaves the whole state of the output (schema,
  warned messages, file) as it was; for a \<^verbatim>\<open>TabularInput\<close> it never raises that error,
  in any state.
\<close>

theorem record_unacceptable_type:
  "record_data env st (OtherInput x) = Raise st (ValueError ''Unacceptable type.'')
   \<and> record_data env st (TabularInput d) \<noteq> Raise st' (ValueError ''Unacceptable type.'')"
proof
  show "record_data env st (OtherInput x) = Raise st (ValueError ''Unacceptable type.'')"
    by (simp add: record_data_def)
  show "record_data env st (TabularInput d) \<noteq> Raise st' (ValueError ''Unacceptable type.'')"
    using unacceptable_tabular [of env st d] by (auto simp: unacceptable_def)
qed

section \<open>Closing an output that never had a writer\<close>

text \<open>
  C10. In copy mode, \<^verbatim>\<open>close\<close> on an output whose writer was never created (no record
  with keys was written) closes the file and then raises \<^verbatim>\<open>AttributeError\<close> at
  \<^verbatim>\<open>self._writer.fieldnames\<close>; the text of the file is left as it was, not rewritten.
\<close>

theorem close_copy_without_writer:
  assumes "inconsistency_handling st = Some ''copy''" and "writer st = None"
  shows "close st = Raise (file_output_close st)
                      (AttributeError ''NoneType object has no attribute fieldnames'')
         \<and> closed (log_file (file_output_close st))
         \<and> content (log_file (file_output_close st)) = content (log_file st)"
  using assms by (simp add: close_def file_output_close_def Let_def)

theorem close_copy_without_writer_witness:
  "inconsistency_handling (init (Some ''copy'') 140) = Some ''copy''
   \<and> writer (init (Some ''copy'') 140) = None
   \<and> close (init (Some ''copy'') 140) =
       Raise (file_output_close (init (Some ''copy'') 140))
         (AttributeError ''NoneType object has no attribute fieldnames'')
   \<and> content (log_file (file_output_close (init (Some ''copy'') 140))) = []"
  using close_copy_without_writer [of "init (Some ''copy'') 140"]
  by (simp add: init_def)

section \<open>Reconciliation and what every call keeps\<close>

lemma handle_inconsistent_reconciled:
  assumes "at_end (log_file st)" "writer st = Some fns" "fieldnames st = Some F"
  shows "handle_inconsistent env ks st = Return (reconciled env ks F fns st) ()"
  using assms by (simp add: handle_inconsistent_at_end reconciled_def)

lemma patch_header_simps [simp]:
  "writer (patch_header fns st) = writer st"
  "fieldnames (patch_header fns st) = fieldnames st"
  "inconsistency_handling (patch_header fns st) = inconsistency_handling st"
  "header_length (patch_header fns st) = header_length st"
  "warnings (patch_header fns st) = warnings st"
  "warned_once (patch_header fns st) = warned_once st"
  "disable_warnings (patch_header fns st) = disable_warnings st"
  by (simp_all add: patch_header_def)

lemma at_end_patch_header:
  "at_end (log_file st) \<Longrightarrow> at_end (log_file (patch_header fns st))"
  by (simp add: at_end_def patch_header_def)

lemma reconciled_simps [simp]:
  "inconsistency_handling (reconciled env ks F fns st) = inconsistency_handling st"
  "header_length (reconciled env ks F fns st) = header_length st"
  "disable_warnings (reconciled env ks F fns st) = disable_warnings st"
  "warned_once (reconciled env ks F fns st) = insert (inconsistent_msg env F (set ks)) (warned_once st)"
  "warnings (reconciled env ks F fns st) = warnings (warn (inconsistent_msg env F (set ks)) st)"
  by (simp_all add: reconciled_def Let_def)

lemma at_end_reconciled:
  "at_end (log_file st) \<Longrightarrow> at_end (log_file (reconciled env ks F fns st))"
  by (simp add: reconciled_def Let_def at_end_patch_header)

lemma record_data_differ_at_end:
  assumes "at_end (log_file st)" "writer st = Some fns" "fieldnames st = Some F"
    "F \<noteq> set (map fst (as_primitive_dict d))"
  shows "record_data env st (TabularInput d) =
     Return (append_log
               (row_text (the (writer (reconciled env (map fst (as_primitive_dict d)) F fns st)))
                  (as_primitive_dict d))
               (reconciled env (map fst (as_primitive_dict d)) F fns st))
            (fold mark (map fst (as_primitive_dict d)) d)"
proof -
  let ?ks = "map fst (as_primitive_dict d)"
  let ?st2 = "reconciled env ?ks F fns st"
  have w: "writer ?st2 = Some (the (writer ?st2))"
    using assms(2) by (simp add: reconciled_def Let_def)
  have "fieldnames st \<noteq> Some (set ?ks)" using assms(3,4) by simp
  then show ?thesis
    using assms(1-3) w
    by (simp add: record_data_differ handle_inconsistent_reconciled
        writerow_at_end [OF at_end_reconciled])
qed

lemma reconciled_writer:
  "writer st = Some fns \<Longrightarrow>
   writer (reconciled env ks F fns st) =
     Some (if truthy (inconsistency_handling st) \<and> set ks - F \<noteq> {}
           then fns @ set_list env (set ks - F) else fns)"
  by (simp add: reconciled_def Let_def)

lemma reconciled_fieldnames:
  "fieldnames st = Some F \<Longrightarrow>
   fieldnames (reconciled env ks F fns st) =
     Some (if truthy (inconsistency_handling st) then F \<union> set ks else F)"
  by (auto simp add: reconciled_def Let_def)

lemma fold_mark_recorded: "recorded (fold mark ks d) = recorded d \<union> set ks"
  by (induction ks arbitrary: d) (auto simp: mark_def)

lemma fold_mark_dict: "as_primitive_dict (fold mark ks d) = as_primitive_dict d"
  by (induction ks arbitrary: d) (auto simp: mark_def)

lemma map_of_zip_same: "k \<in> set ks \<Longrightarrow> map_of (zip ks ks) k = Some k"
  by (induction ks) auto

lemma header_text_eq: "header_text ks = csv_writerow ks"
proof -
  have "map (dict_get (zip ks ks)) ks = map (\<lambda>k. k) ks"
    by (rule map_cong) (simp_all add: dict_get_def map_of_zip_same)
  then show ?thesis
    by (simp add: header_text_def row_text_def dict_to_list_def)
qed

lemma consistent_init: "consistent (init impl hl)"
  by (simp add: consistent_def init_def at_end_def)

lemma record_data_consistent:
  assumes "consistent st"
  shows "\<exists>st'. record_data env st (TabularInput d) =
           Return st' (if as_primitive_dict d = [] \<and> writer st = None then d
                       else fold mark (map fst (as_primitive_dict d)) d)
         \<and> consistent st'
         \<and> inconsistency_handling st' = inconsistency_handling st
         \<and> header_length st' = header_length st
         \<and> disable_warnings st' = disable_warnings st"
proof (cases "writer st")
  case None
  show ?thesis
  proof (cases "as_primitive_dict d = []")
    case True
    with None assms show ?thesis by (simp add: record_data_noop)
  next
    case False
    with None assms show ?thesis
      by (simp add: record_data_commit consistent_def at_end_append_log)
  qed
next
  case (Some fns)
  with assms obtain F where F: "fieldnames st = Some F"
    by (auto simp: consistent_def)
  have e: "at_end (log_file st)" using assms by (simp add: consistent_def)
  show ?thesis
  proof (cases "F = set (map fst (as_primitive_dict d))")
    case True
    with Some F e show ?thesis
      by (simp add: record_data_same consistent_def at_end_append_log)
  next
    case False
    with Some F e show ?thesis
      by (simp add: record_data_differ_at_end consistent_def at_end_append_log
          at_end_reconciled reconciled_writer reconciled_fieldnames)
  qed
qed

lemma record_all_consistent:
  "consistent st \<Longrightarrow>
   \<exists>st'. record_all env st ds = Return st' () \<and> consistent st'
        \<and> inconsistency_handling st' = inconsistency_handling st
        \<and> header_length st' = header_length st
        \<and> disable_warnings st' = disable_warnings st"
proof (induction ds arbitrary: st)
  case Nil
  then show ?case by simp
next
  case (Cons d ds)
  from record_data_consistent [OF Cons.prems, of env d]
  obtain st1 d1 where 1: "record_data env st (TabularInput d) = Return st1 d1"
    "consistent st1" "inconsistency_handling st1 = inconsistency_handling st"
    "header_length st1 = header_length st" "disable_warnings st1 = disable_warnings st"
    by blast
  from Cons.IH [OF 1(2)] 1 show ?case by simp
qed

section \<open>Marking the fields of a record\<close>

lemma valid_sorted_env: "valid_env sorted_env"
  by (simp add: valid_env_def sorted_env_def)

lemma consistent_foo: "consistent (state_of (record_all sorted_env (init None 140) [foo1]))"
  by (simp add: consistent_def at_end_def sorted_env_def init_def foo1_def tabular_def record_data_def Let_def
    start_writer_def write_log_def file_write_def overwrite_def
    writerow_def)

text \<open>
  C5 (as amended). A write after the schema is committed never fails on an open file; its
  row holds one value for each field of the (possibly extended) schema and nothing
  else, so a field of the record outside the schema is ignored for the row; and every
  field present in the record is marked consumed (\<^verbatim>\<open>for k in to_csv.keys():
  data.mark(k)\<close>), whether or not it belongs to the schema.
\<close>

theorem record_marks_every_key:
  assumes "consistent st" and "writer st = Some fns"
  shows "\<exists>st' fns' pre.
           record_data env st (TabularInput d) =
             Return st' (fold mark (map fst (as_primitive_dict d)) d)
         \<and> writer st' = Some fns'
         \<and> content (log_file st') = pre @ csv_writerow (map (dict_get (as_primitive_dict d)) fns')
         \<and> recorded (fold mark (map fst (as_primitive_dict d)) d)
             = recorded d \<union> set (map fst (as_primitive_dict d))
         \<and> as_primitive_dict (fold mark (map fst (as_primitive_dict d)) d) = as_primitive_dict d"
proof -
  from assms obtain F where F: "fieldnames st = Some F"
    by (auto simp: consistent_def)
  have e: "at_end (log_file st)" using assms by (simp add: consistent_def)
  show ?thesis
  proof (cases "F = set (map fst (as_primitive_dict d))")
    case True
    with assms(2) F e show ?thesis
      by (simp add: record_data_same fold_mark_recorded fold_mark_dict row_text_def dict_to_list_def)
  next
    case False
    with assms(2) F e show ?thesis
      by (simp add: record_data_differ_at_end fold_mark_recorded fold_mark_dict row_text_def
          dict_to_list_def reconciled_writer)
  qed
qed

theorem record_marks_every_key_witness:
  "consistent (state_of (record_all sorted_env (init None 140) [foo1]))
   \<and> writer (state_of (record_all sorted_env (init None 140) [foo1])) = Some [''foo'']
   \<and> (\<exists>st' fns' pre.
         record_data sorted_env (state_of (record_all sorted_env (init None 140) [foo1]))
             (TabularInput foo2_bar20) =
           Return st' (fold mark (map fst (as_primitive_dict foo2_bar20)) foo2_bar20)
         \<and> writer st' = Some fns'
         \<and> content (log_file st') = pre @ csv_writerow (map (dict_get (as_primitive_dict foo2_bar20)) fns'))
   \<and> recorded (fold mark (map fst (as_primitive_dict foo2_bar20)) foo2_bar20) = {''foo'', ''bar''}"
proof -
  have w: "writer (state_of (record_all sorted_env (init None 140) [foo1])) = Some [''foo'']"
    by code_simp
  have r: "recorded (fold mark (map fst (as_primitive_dict foo2_bar20)) foo2_bar20) = {''foo'', ''bar''}"
    by (auto simp: foo2_bar20_def tabular_def mark_def)
  from record_marks_every_key [OF consistent_foo w, of sorted_env foo2_bar20]
  show ?thesis using consistent_foo w r by blast
qed

text \<open>
  C5 as stated fails: with no reconciliation mode and the schema \<^verbatim>\<open>foo\<close>, writing
  \<^verbatim>\<open>{foo: 2, bar: 20}\<close> leaves the schema \<^verbatim>\<open>foo\<close> and writes the row \<^verbatim>\<open>2\<close>, yet
  \<^verbatim>\<open>bar\<close> is marked as consumed.
\<close>

theorem record_marks_key_outside_schema:
  "writer (state_of (record_all sorted_env (init None 140) [foo1])) = Some [''foo'']
   \<and> returned (record_data sorted_env (state_of (record_all sorted_env (init None 140) [foo1]))
                 (TabularInput foo2_bar20))
       = Some \<lparr>as_primitive_dict = [(''foo'', ''2''), (''bar'', ''20'')], recorded = {''foo'', ''bar''}\<rparr>
   \<and> writer (state_of (record_data sorted_env (state_of (record_all sorted_env (init None 140) [foo1]))
                 (TabularInput foo2_bar20))) = Some [''foo'']
   \<and> content (log_file (state_of (record_data sorted_env
                 (state_of (record_all sorted_env (init None 140) [foo1]))
                 (TabularInput foo2_bar20))))
       = ''foo'' @ CRLF @ ''1'' @ CRLF @ ''2'' @ CRLF"
  by code_simp

section \<open>The first record\<close>

lemma record_all_append:
  "record_all env st (xs @ ys) =
     (case record_all env st xs of
        Raise st' e \<Rightarrow> Raise st' e
      | Return st' u \<Rightarrow> record_all env st' ys)"
  by (induction xs arbitrary: st) (simp_all split: outcome.splits)

lemma record_all_noops:
  "\<forall>e\<in>set es. as_primitive_dict e = [] \<Longrightarrow> writer st = None \<Longrightarrow>
   record_all env st es = Return st ()"
  by (induction es) (simp_all add: record_data_noop)

lemma init_simps [simp]:
  "writer (init impl hl) = None"
  "fieldnames (init impl hl) = None"
  "inconsistency_handling (init impl hl) = impl"
  "header_length (init impl hl) = hl"
  "warnings (init impl hl) = []"
  "warned_once (init impl hl) = {}"
  "disable_warnings (init impl hl) = False"
  "content (log_file (init impl hl)) = []"
  "at_end (log_file (init impl hl))"
  by (simp_all add: init_def at_end_def)

text \<open>
  C7. While no schema is committed, a record with no fields is a no-op: the call returns
  the output as it was (no header, no row, no warning, no writer) and the record
  unmarked. The first record with fields that follows creates the writer with exactly
  that record's field names, in the record's order, and the file is then the header
  line of those names (padded or cut to the budget in fixed-header-length mode)
  followed by the record's row.
\<close>

theorem empty_records_then_commit:
  assumes "\<forall>e\<in>set es. as_primitive_dict e = []" and "as_primitive_dict d \<noteq> []"
  shows "record_all env (init impl hl) es = Return (init impl hl) ()
       \<and> (\<forall>e\<in>set es. record_data env (init impl hl) (TabularInput e)
                          = Return (init impl hl) e)
       \<and> (\<exists>st. record_all env (init impl hl) (es @ [d]) = Return st ()
             \<and> writer st = Some (map fst (as_primitive_dict d))
             \<and> fieldnames st = Some (set (map fst (as_primitive_dict d)))
             \<and> content (log_file st) =
                 (if impl = Some ''fixed_header_length''
                  then take hl (format_left (str_join [comma] (map fst (as_primitive_dict d))) hl) @ CRLF
                  else csv_writerow (map fst (as_primitive_dict d)))
                 @ csv_writerow (map (dict_get (as_primitive_dict d)) (map fst (as_primitive_dict d)))
             \<and> warnings st = [] \<and> warned_once st = {})"
proof (intro conjI)
  show 1: "record_all env (init impl hl) es = Return (init impl hl) ()"
    using assms(1) by (simp add: record_all_noops)
  show "\<forall>e\<in>set es. record_data env (init impl hl) (TabularInput e)
                          = Return (init impl hl) e"
    using assms(1) by (simp add: record_data_noop)
  show "\<exists>st. record_all env (init impl hl) (es @ [d]) = Return st ()
             \<and> writer st = Some (map fst (as_primitive_dict d))
             \<and> fieldnames st = Some (set (map fst (as_primitive_dict d)))
             \<and> content (log_file st) =
                 (if impl = Some ''fixed_header_length''
                  then take hl (format_left (str_join [comma] (map fst (as_primitive_dict d))) hl) @ CRLF
                  else csv_writerow (map fst (as_primitive_dict d)))
                 @ csv_writerow (map (dict_get (as_primitive_dict d)) (map fst (as_primitive_dict d)))
             \<and> warnings st = [] \<and> warned_once st = {}"
    using assms(2)
    by (simp add: record_all_append 1 record_data_commit header_text_eq row_text_def dict_to_list_def)
qed

theorem empty_records_then_commit_witness:
  "as_primitive_dict empty_tabular = []
   \<and> as_primitive_dict foo2_bar20 \<noteq> []
   \<and> record_all sorted_env (init None 140) [empty_tabular, empty_tabular] = Return (init None 140) ()
   \<and> writer (state_of (record_all sorted_env (init None 140) [empty_tabular, empty_tabular, foo2_bar20]))
       = Some [''foo'', ''bar'']
   \<and> content (log_file (state_of (record_all sorted_env (init None 140)
                                      [empty_tabular, empty_tabular, foo2_bar20])))
       = ''foo,bar'' @ CRLF @ ''2,20'' @ CRLF"
proof -
  have h1: "\<forall>e\<in>set [empty_tabular, empty_tabular]. as_primitive_dict e = []"
    by (simp add: empty_tabular_def tabular_def)
  have h2: "as_primitive_dict foo2_bar20 \<noteq> []"
    by (simp add: foo2_bar20_def tabular_def)
  have c: "writer (state_of (record_all sorted_env (init None 140) [empty_tabular, empty_tabular, foo2_bar20]))
       = Some [''foo'', ''bar'']
   \<and> content (log_file (state_of (record_all sorted_env (init None 140)
                                      [empty_tabular, empty_tabular, foo2_bar20])))
       = ''foo,bar'' @ CRLF @ ''2,20'' @ CRLF"
    by code_simp
  have h0: "as_primitive_dict empty_tabular = []"
    by (simp add: empty_tabular_def tabular_def)
  from empty_records_then_commit [OF h1 h2, of sorted_env None 140]
  have "record_all sorted_env (init None 140) [empty_tabular, empty_tabular]
          = Return (init None 140) ()"
    by (rule conjunct1)
  with h0 h2 c show ?thesis by blast
qed



section \<open>Fixed-header-length mode\<close>

lemma content_patch_header:
  "content (log_file (patch_header fns st)) =
     take (header_length st) (str_join [comma] fns)
     @ drop (length (take (header_length st) (str_join [comma] fns))) (content (log_file st))"
  by (simp add: patch_header_def overwrite_start)

lemma truthy_fixed [simp]: "truthy (Some ''fixed_header_length'')"
  by (simp add: truthy_def)

lemma truthy_copy [simp]: "truthy (Some ''copy'')"
  by (simp add: truthy_def)

lemma truthy_None [simp]: "\<not> truthy None"
  by (simp add: truthy_def)

lemma content_reconciled_fixed:
  assumes "inconsistency_handling st = Some ''fixed_header_length''"
  shows "content (log_file (reconciled env ks F fns st)) =
     (if set ks - F \<noteq> {}
      then take (header_length st) (str_join [comma] (fns @ set_list env (set ks - F)))
           @ drop (length (take (header_length st) (str_join [comma] (fns @ set_list env (set ks - F)))))
               (content (log_file st))
      else content (log_file st))"
  using assms by (simp add: reconciled_def Let_def content_patch_header del: length_take)

lemma content_reconciled_other:
  assumes "inconsistency_handling st \<noteq> Some ''fixed_header_length''"
  shows "content (log_file (reconciled env ks F fns st)) = content (log_file st)"
  using assms by (simp add: reconciled_def Let_def)

lemma terminator_kept:
  assumes "length h \<le> n" "n + 2 \<le> length c"
  shows "take 2 (drop n (h @ drop (length h) c @ r)) = take 2 (drop n c)"
    and "n + 2 \<le> length (h @ drop (length h) c @ r)"
proof -
  have "drop n (h @ drop (length h) c @ r) = drop (n - length h) (drop (length h) c @ r)"
    using assms by simp
  also have "\<dots> = drop (n - length h) (drop (length h) c) @ r"
    using assms by simp
  also have "drop (n - length h) (drop (length h) c) = drop n c"
    using assms by simp
  finally show "take 2 (drop n (h @ drop (length h) c @ r)) = take 2 (drop n c)"
    using assms by simp
  show "n + 2 \<le> length (h @ drop (length h) c @ r)" using assms by simp
qed

lemma terminator_appended:
  assumes "n + 2 \<le> length c"
  shows "take 2 (drop n (c @ r)) = take 2 (drop n c)"
  using assms by simp

lemma fixed_inv_init: "fixed_inv (init (Some ''fixed_header_length'') hl)"
  by (simp add: fixed_inv_def consistent_init)

lemma fixed_inv_commit:
  assumes "fixed_inv st" "writer st = None" "as_primitive_dict d \<noteq> []"
  shows "fixed_inv (state_of (record_data env st (TabularInput d)))"
proof -
  let ?n = "header_length st"
  let ?H = "take ?n (format_left (str_join [comma] (map fst (as_primitive_dict d))) ?n)"
  have l: "length ?H = ?n" by (simp add: format_left_def)
  have e: "at_end (log_file st)" and m: "inconsistency_handling st = Some ''fixed_header_length''"
    and c: "content (log_file st) = []"
    using assms(1,2) by (simp_all add: fixed_inv_def consistent_def)
  have t: "take 2 (drop ?n (?H @ CRLF @ x)) = CRLF" for x
    using l by (simp add: CRLF_def del: length_take)
  have g: "?n + 2 \<le> length (?H @ CRLF @ x)" for x
    using l by (simp add: CRLF_def del: length_take)
  show ?thesis
    using assms(2,3) e m c t g
    by (simp add: record_data_commit fixed_inv_def consistent_def at_end_append_log del: length_take)
qed

lemma fixed_inv_same:
  assumes "fixed_inv st" "writer st = Some fns"
    "fieldnames st = Some (set (map fst (as_primitive_dict d)))"
  shows "fixed_inv (state_of (record_data env st (TabularInput d)))"
proof -
  have e: "at_end (log_file st)" using assms(1) by (simp add: fixed_inv_def consistent_def)
  show ?thesis
    using assms e
    by (simp add: record_data_same fixed_inv_def consistent_def at_end_append_log)
qed

lemma record_data_differ_fixed:
  assumes "at_end (log_file st)" "writer st = Some fns" "fieldnames st = Some F"
    "F \<noteq> set (map fst (as_primitive_dict d))"
    "inconsistency_handling st = Some ''fixed_header_length''"
    "set (map fst (as_primitive_dict d)) - F \<noteq> {}"
    "fns' = fns @ set_list env (set (map fst (as_primitive_dict d)) - F)"
    "h = take (header_length st) (str_join [comma] fns')"
  shows "\<exists>st'. record_data env st (TabularInput d) =
                 Return st' (fold mark (map fst (as_primitive_dict d)) d)
          \<and> writer st' = Some fns'
          \<and> fieldnames st' = Some (F \<union> set (map fst (as_primitive_dict d)))
          \<and> content (log_file st') =
               h @ drop (length h) (content (log_file st)) @ row_text fns' (as_primitive_dict d)
          \<and> at_end (log_file st')
          \<and> inconsistency_handling st' = inconsistency_handling st
          \<and> header_length st' = header_length st"
  using assms
  by (simp add: record_data_differ_at_end at_end_append_log
      at_end_reconciled reconciled_writer reconciled_fieldnames content_reconciled_fixed
      del: length_take)

lemma record_data_differ_plain:
  assumes "at_end (log_file st)" "writer st = Some fns" "fieldnames st = Some F"
    "F \<noteq> set (map fst (as_primitive_dict d))"
    "inconsistency_handling st = Some ''fixed_header_length''"
    "set (map fst (as_primitive_dict d)) - F = {}"
  shows "\<exists>st'. record_data env st (TabularInput d) =
                 Return st' (fold mark (map fst (as_primitive_dict d)) d)
          \<and> writer st' = Some fns
          \<and> fieldnames st' = Some F
          \<and> content (log_file st') = content (log_file st) @ row_text fns (as_primitive_dict d)
          \<and> at_end (log_file st')
          \<and> inconsistency_handling st' = inconsistency_handling st
          \<and> header_length st' = header_length st"
  using assms
  by (auto simp add: record_data_differ_at_end at_end_append_log
      at_end_reconciled reconciled_writer reconciled_fieldnames content_reconciled_fixed
      simp del: length_take)

lemma fixed_inv_differ:
  assumes "fixed_inv st" "writer st = Some fns" "fieldnames st = Some F"
    "F \<noteq> set (map fst (as_primitive_dict d))"
  shows "fixed_inv (state_of (record_data env st (TabularInput d)))"
proof -
  let ?ks = "map fst (as_primitive_dict d)"
  let ?n = "header_length st"
  let ?c = "content (log_file st)"
  define fns' where "fns' = fns @ set_list env (set ?ks - F)"
  define h where "h = take ?n (str_join [comma] fns')"
  have e: "at_end (log_file st)" and m: "inconsistency_handling st = Some ''fixed_header_length''"
    and g: "?n + 2 \<le> length ?c" and t: "take 2 (drop ?n ?c) = CRLF"
    using assms(1,2) by (simp_all add: fixed_inv_def consistent_def)
  have lh: "length h \<le> ?n" by (simp add: h_def)
  show ?thesis
  proof (cases "set ?ks - F = {}")
    case True
    from record_data_differ_plain [OF e assms(2,3,4) m True, of env]
    obtain st' where r: "record_data env st (TabularInput d) = Return st' (fold mark ?ks d)"
      and s: "writer st' = Some fns" "fieldnames st' = Some F"
         "content (log_file st') = ?c @ row_text fns (as_primitive_dict d)"
         "at_end (log_file st')" "inconsistency_handling st' = inconsistency_handling st"
         "header_length st' = header_length st"
      by blast
    have "take 2 (drop ?n (content (log_file st'))) = CRLF"
      unfolding s(3) using g t by simp
    moreover have "?n + 2 \<le> length (content (log_file st'))"
      unfolding s(3) using g by simp
    ultimately show ?thesis
      using r s(1,2,4,5,6) m by (simp add: fixed_inv_def consistent_def)
  next
    case False
    from record_data_differ_fixed [OF e assms(2,3,4) m False fns'_def h_def]
    obtain st' where r: "record_data env st (TabularInput d) = Return st' (fold mark ?ks d)"
      and s: "writer st' = Some fns'" "fieldnames st' = Some (F \<union> set ?ks)"
         "content (log_file st') = h @ drop (length h) ?c @ row_text fns' (as_primitive_dict d)"
         "at_end (log_file st')" "inconsistency_handling st' = inconsistency_handling st"
         "header_length st' = header_length st"
      by blast
    have "take 2 (drop ?n (content (log_file st'))) = CRLF"
      unfolding s(3) terminator_kept(1) [OF lh g] by (rule t)
    moreover have "?n + 2 \<le> length (content (log_file st'))"
      unfolding s(3) by (rule terminator_kept(2) [OF lh g])
    ultimately show ?thesis
      using r s(1,2,4,5,6) m by (simp add: fixed_inv_def consistent_def)
  qed
qed

lemma fixed_inv_record_data:
  assumes "fixed_inv st"
  shows "\<exists>st'. record_data env st (TabularInput d) =
           Return st' (if as_primitive_dict d = [] \<and> writer st = None then d
                       else fold mark (map fst (as_primitive_dict d)) d)
         \<and> fixed_inv st' \<and> header_length st' = header_length st"
proof -
  have c: "consistent st" using assms by (simp add: fixed_inv_def)
  from record_data_consistent [OF c, of env d]
  obtain st' where r: "record_data env st (TabularInput d) =
           Return st' (if as_primitive_dict d = [] \<and> writer st = None then d
                       else fold mark (map fst (as_primitive_dict d)) d)"
    and h': "header_length st' = header_length st"
    by blast
  have "fixed_inv (state_of (record_data env st (TabularInput d)))"
  proof (cases "writer st")
    case None
    then show ?thesis
      using assms fixed_inv_commit [OF assms None, of d env]
      by (cases "as_primitive_dict d = []") (simp_all add: record_data_noop)
  next
    case (Some fns)
    with c obtain F where F: "fieldnames st = Some F" by (auto simp: consistent_def)
    show ?thesis
      using fixed_inv_same [OF assms Some, of d env] fixed_inv_differ [OF assms Some F, of d env] F
      by (cases "F = set (map fst (as_primitive_dict d))") simp_all
  qed
  with r h' show ?thesis by simp
qed

lemma fixed_inv_record_all:
  "fixed_inv st \<Longrightarrow> record_all env st ds = Return st' () \<Longrightarrow>
   fixed_inv st' \<and> header_length st' = header_length st"
proof (induction ds arbitrary: st)
  case Nil
  then show ?case by simp
next
  case (Cons d ds)
  from fixed_inv_record_data [OF Cons.prems(1), of env d]
  obtain st1 d1 where 1: "record_data env st (TabularInput d) = Return st1 d1"
    "fixed_inv st1" "header_length st1 = header_length st"
    by blast
  from Cons.IH [OF 1(2)] Cons.prems(2) 1 show ?case by simp
qed



section \<open>The schema is only extended\<close>

lemma schema_step:
  assumes "consistent st" "writer st = Some fns" "fieldnames st = Some F"
    "N = (if truthy (inconsistency_handling st) then set (map fst (as_primitive_dict d)) - F else {})"
    "ext = (if N \<noteq> {} then set_list env N else [])"
  shows "\<exists>st1. record_data env st (TabularInput d) =
                 Return st1 (fold mark (map fst (as_primitive_dict d)) d)
          \<and> consistent st1 \<and> writer st1 = Some (fns @ ext) \<and> fieldnames st1 = Some (F \<union> N)"
proof -
  have e: "at_end (log_file st)" using assms(1) by (simp add: consistent_def)
  show ?thesis
  proof (cases "F = set (map fst (as_primitive_dict d))")
    case True
    with assms e show ?thesis
      by (simp add: record_data_same consistent_def at_end_append_log)
  next
    case False
    with assms e show ?thesis
      by (auto simp add: record_data_differ_at_end consistent_def at_end_append_log
          at_end_reconciled reconciled_writer reconciled_fieldnames)
  qed
qed

lemma writer_prefix_record_all:
  "consistent st \<Longrightarrow> writer st = Some fns \<Longrightarrow>
   \<exists>st' rest. record_all env st ds = Return st' () \<and> writer st' = Some (fns @ rest)"
proof (induction ds arbitrary: st fns)
  case Nil
  then show ?case by simp
next
  case (Cons d ds)
  from Cons.prems obtain F where F: "fieldnames st = Some F"
    by (auto simp: consistent_def)
  from schema_step [OF Cons.prems F refl refl, where d=d and env=env]
  obtain st1 ext where 1: "record_data env st (TabularInput d) =
        Return st1 (fold mark (map fst (as_primitive_dict d)) d)"
    "consistent st1" "writer st1 = Some (fns @ ext)"
    by blast
  from Cons.IH [OF 1(2,3)] obtain st' rest where
    "record_all env st1 ds = Return st' ()" "writer st' = Some ((fns @ ext) @ rest)"
    by blast
  with 1(1) show ?case by simp
qed

text \<open>
  C4 (as amended). Once the schema is committed, every write keeps the field names it
  finds as an initial part of the writer's field names, in their order, and so does
  every sequence of writes after it. When a reconciliation mode is set, the names
  appended by a write are the keys of the record that the schema lacks, each once, in
  the order in which Python iterates the set \<^verbatim>\<open>to_csv.keys() - self._fieldnames\<close>;
  without a mode nothing is appended.
\<close>

theorem schema_only_extended:
  assumes "valid_env env" and "consistent st" and "writer st = Some fns"
    and "fieldnames st = Some F"
  shows "\<exists>st1 ext. record_data env st (TabularInput d) =
                 Return st1 (fold mark (map fst (as_primitive_dict d)) d)
          \<and> writer st1 = Some (fns @ ext)
          \<and> distinct ext
          \<and> set ext = (if truthy (inconsistency_handling st)
                         then set (map fst (as_primitive_dict d)) - F else {})
          \<and> fieldnames st1 = Some (F \<union> set ext)
          \<and> (\<forall>ds. \<exists>st2 rest. record_all env st1 ds = Return st2 ()
                               \<and> writer st2 = Some (fns @ ext @ rest))"
proof -
  define N where "N = (if truthy (inconsistency_handling st)
                         then set (map fst (as_primitive_dict d)) - F else {})"
  define ext where "ext = (if N \<noteq> {} then set_list env N else [])"
  from schema_step [OF assms(2,3,4) N_def ext_def]
  obtain st1 where 1: "record_data env st (TabularInput d) =
        Return st1 (fold mark (map fst (as_primitive_dict d)) d)"
    "consistent st1" "writer st1 = Some (fns @ ext)" "fieldnames st1 = Some (F \<union> N)"
    by blast
  have "finite N" by (simp add: N_def)
  with assms(1) have e: "set ext = N" "distinct ext"
    by (auto simp: ext_def valid_env_def)
  have p: "\<exists>st2 rest. record_all env st1 ds = Return st2 () \<and> writer st2 = Some (fns @ ext @ rest)"
    for ds
    using writer_prefix_record_all [OF 1(2,3), of env ds] by simp
  show ?thesis
    using 1(1,3,4) e p unfolding N_def [symmetric] by blast
qed

theorem schema_only_extended_witness:
  "valid_env sorted_env
   \<and> consistent (state_of (record_all sorted_env (init (Some ''copy'') 140) [a1]))
   \<and> writer (state_of (record_all sorted_env (init (Some ''copy'') 140) [a1])) = Some [''a'']
   \<and> fieldnames (state_of (record_all sorted_env (init (Some ''copy'') 140) [a1])) = Some {''a''}
   \<and> (\<exists>st1 ext. record_data sorted_env
           (state_of (record_all sorted_env (init (Some ''copy'') 140) [a1])) (TabularInput y2_x3) =
           Return st1 (fold mark (map fst (as_primitive_dict y2_x3)) y2_x3)
         \<and> writer st1 = Some ([''a''] @ ext) \<and> distinct ext \<and> set ext = {''x'', ''y''})"
proof -
  let ?st = "state_of (record_all sorted_env (init (Some ''copy'') 140) [a1])"
  have h2: "consistent ?st"
    using record_all_consistent [OF consistent_init, where env=sorted_env and ds="[a1]"
        and impl1="Some ''copy''" and hl1=140]
    by auto
  have h3: "writer ?st = Some [''a'']" by code_simp
  have h4: "fieldnames ?st = Some {''a''}" by code_simp
  have v: "(if truthy (inconsistency_handling ?st)
            then set (map fst (as_primitive_dict y2_x3)) - {''a''} else {}) = {''x'', ''y''}"
    by code_simp
  note w = schema_only_extended [OF valid_sorted_env h2 h3 h4, where d=y2_x3, unfolded v]
  from w valid_sorted_env h2 h3 h4 show ?thesis by blast
qed

text \<open>
  C4 as stated fails in its last part: in copy mode with the schema \<^verbatim>\<open>a\<close>, the record
  \<^verbatim>\<open>{y: 2, x: 3}\<close> first shows \<^verbatim>\<open>y\<close> and then \<^verbatim>\<open>x\<close>, and an interpreter whose
  set iterates \<^verbatim>\<open>x\<close> before \<^verbatim>\<open>y\<close> appends \<^verbatim>\<open>x\<close>, \<^verbatim>\<open>y\<close>.
\<close>

theorem schema_extension_order:
  "valid_env sorted_env
   \<and> map fst (as_primitive_dict y2_x3) = [''y'', ''x'']
   \<and> writer (state_of (record_all sorted_env (init (Some ''copy'') 140) [a1])) = Some [''a'']
   \<and> writer (state_of (record_all sorted_env (init (Some ''copy'') 140) [a1, y2_x3]))
       = Some [''a'', ''x'', ''y'']"
proof -
  have "map fst (as_primitive_dict y2_x3) = [''y'', ''x'']
   \<and> writer (state_of (record_all sorted_env (init (Some ''copy'') 140) [a1])) = Some [''a'']
   \<and> writer (state_of (record_all sorted_env (init (Some ''copy'') 140) [a1, y2_x3]))
       = Some [''a'', ''x'', ''y'']"
    by code_simp
  with valid_sorted_env show ?thesis by blast
qed

section \<open>Warnings\<close>

lemma winv_init: "winv (init impl hl)"
  by (simp add: winv_def)

lemma warn_winv:
  assumes "winv st"
  shows "winv (warn m st)"
    and "warnings (warn m st) = (if m \<in> set (warnings st) then warnings st else warnings st @ [m])"
  using assms by (auto simp add: winv_def warn_def)

lemma warnings_step:
  assumes "consistent st"
    and "w = (case fieldnames st of
                None \<Rightarrow> st
              | Some F \<Rightarrow>
                  if F = set (map fst (as_primitive_dict d)) then st
                  else warn (inconsistent_msg env F (set (map fst (as_primitive_dict d)))) st)"
  shows "\<exists>st'. record_data env st (TabularInput d) =
           Return st' (if as_primitive_dict d = [] \<and> writer st = None then d
                       else fold mark (map fst (as_primitive_dict d)) d)
         \<and> consistent st'
         \<and> warnings st' = warnings w \<and> warned_once st' = warned_once w
         \<and> disable_warnings st' = disable_warnings w"
proof (cases "writer st")
  case None
  with assms(1) have F: "fieldnames st = None" by (simp add: consistent_def)
  show ?thesis
  proof (cases "as_primitive_dict d = []")
    case True
    with None assms F show ?thesis by (simp add: record_data_noop)
  next
    case False
    with None assms F show ?thesis
      by (simp add: record_data_commit consistent_def at_end_append_log)
  qed
next
  case (Some fns)
  with assms(1) obtain F where F: "fieldnames st = Some F"
    by (auto simp: consistent_def)
  have e: "at_end (log_file st)" using assms(1) by (simp add: consistent_def)
  show ?thesis
  proof (cases "F = set (map fst (as_primitive_dict d))")
    case True
    with Some F e assms(2) show ?thesis
      by (simp add: record_data_same consistent_def at_end_append_log)
  next
    case False
    with Some F e assms(2) show ?thesis
      by (simp add: record_data_differ_at_end consistent_def at_end_append_log
          at_end_reconciled reconciled_writer reconciled_fieldnames)
  qed
qed

lemma winv_record_all:
  "consistent st \<Longrightarrow> winv st \<Longrightarrow> record_all env st ds = Return st' () \<Longrightarrow>
   consistent st' \<and> winv st'"
proof (induction ds arbitrary: st)
  case Nil
  then show ?case by simp
next
  case (Cons d ds)
  define w where "w = (case fieldnames st of
                None \<Rightarrow> st
              | Some F \<Rightarrow>
                  if F = set (map fst (as_primitive_dict d)) then st
                  else warn (inconsistent_msg env F (set (map fst (as_primitive_dict d)))) st)"
  from warnings_step [OF Cons.prems(1) w_def]
  obtain st1 d1 where 1: "record_data env st (TabularInput d) = Return st1 d1"
    "consistent st1" "warnings st1 = warnings w" "warned_once st1 = warned_once w"
    "disable_warnings st1 = disable_warnings w"
    by blast
  have w: "w = st \<or> (\<exists>m. w = warn m st)"
    by (simp add: w_def split: option.splits) blast
  from w Cons.prems(2) have "winv w" by (auto simp: warn_winv)
  with 1 have "winv st1" by (simp add: winv_def)
  from Cons.IH [OF 1(2) this] Cons.prems(3) 1(1) show ?case by simp
qed

text \<open>
  C6. In every state reached from a fresh output by calls of \<^verbatim>\<open>record\<close>, no warning
  text has been emitted twice. A further write whose key set differs from
  \<^verbatim>\<open>self._fieldnames\<close> emits its message if and only if that text was not emitted
  before, so a repeated text adds no second warning and a new text adds exactly one; a
  write with the same key set, or the write that commits the schema, emits nothing.
\<close>

theorem warning_emitted_once:
  assumes "record_all env (init impl hl) ds = Return st ()"
  shows "distinct (warnings st)
       \<and> (\<exists>st'. record_data env st (TabularInput d) =
                  Return st' (if as_primitive_dict d = [] \<and> writer st = None then d
                              else fold mark (map fst (as_primitive_dict d)) d)
             \<and> distinct (warnings st')
             \<and> warnings st' =
                 (case fieldnames st of
                    None \<Rightarrow> warnings st
                  | Some F \<Rightarrow>
                      if F = set (map fst (as_primitive_dict d)) then warnings st
                      else if inconsistent_msg env F (set (map fst (as_primitive_dict d)))
                                \<in> set (warnings st)
                      then warnings st
                      else warnings st
                           @ [inconsistent_msg env F (set (map fst (as_primitive_dict d)))]))"
proof -
  from winv_record_all [OF consistent_init winv_init assms]
  have c: "consistent st" and w: "winv st" by simp_all
  define x where "x = (case fieldnames st of
                None \<Rightarrow> st
              | Some F \<Rightarrow>
                  if F = set (map fst (as_primitive_dict d)) then st
                  else warn (inconsistent_msg env F (set (map fst (as_primitive_dict d)))) st)"
  from warnings_step [OF c x_def]
  obtain st' where 1: "record_data env st (TabularInput d) =
           Return st' (if as_primitive_dict d = [] \<and> writer st = None then d
                       else fold mark (map fst (as_primitive_dict d)) d)"
    and 2: "warnings st' = warnings x"
    by blast
  have 3: "warnings x = (case fieldnames st of
                    None \<Rightarrow> warnings st
                  | Some F \<Rightarrow>
                      if F = set (map fst (as_primitive_dict d)) then warnings st
                      else if inconsistent_msg env F (set (map fst (as_primitive_dict d)))
                                \<in> set (warnings st)
                      then warnings st
                      else warnings st
                           @ [inconsistent_msg env F (set (map fst (as_primitive_dict d)))])"
    using w by (simp add: x_def warn_winv(2) split: option.splits)
  have "winv x" using w by (simp add: x_def warn_winv(1) split: option.splits)
  then have 4: "distinct (warnings st')" using 2 by (simp add: winv_def)
  have 5: "distinct (warnings st)" using w by (simp add: winv_def)
  show ?thesis
    using 1 2 3 4 5 by (metis (no_types, lifting))
qed

theorem warning_emitted_once_witness:
  "record_all sorted_env (init None 140) [foo1, foo2_bar20] =
     Return (state_of (record_all sorted_env (init None 140) [foo1, foo2_bar20])) ()
   \<and> fieldnames (state_of (record_all sorted_env (init None 140) [foo1, foo2_bar20])) = Some {''foo''}
   \<and> warnings (state_of (record_all sorted_env (init None 140) [foo1, foo2_bar20]))
       = [inconsistent_msg sorted_env {''foo''} {''foo'', ''bar''}]
   \<and> (\<exists>st'. record_data sorted_env
                (state_of (record_all sorted_env (init None 140) [foo1, foo2_bar20]))
                (TabularInput foo2_bar20) =
                Return st' (fold mark (map fst (as_primitive_dict foo2_bar20)) foo2_bar20)
         \<and> warnings st' = [inconsistent_msg sorted_env {''foo''} {''foo'', ''bar''}])"
proof -
  let ?st = "state_of (record_all sorted_env (init None 140) [foo1, foo2_bar20])"
  have h1: "record_all sorted_env (init None 140) [foo1, foo2_bar20] = Return ?st ()"
    by code_simp
  have f: "fieldnames ?st = Some {''foo''}" by code_simp
  have ws: "warnings ?st = [inconsistent_msg sorted_env {''foo''} {''foo'', ''bar''}]"
    by code_simp
  have v: "(if as_primitive_dict foo2_bar20 = [] \<and> writer ?st = None then foo2_bar20
            else fold mark (map fst (as_primitive_dict foo2_bar20)) foo2_bar20)
           = fold mark (map fst (as_primitive_dict foo2_bar20)) foo2_bar20"
    by code_simp
  have u: "(case Some {''foo''} of
                    None \<Rightarrow> [inconsistent_msg sorted_env {''foo''} {''foo'', ''bar''}]
                  | Some F \<Rightarrow>
                      if F = set (map fst (as_primitive_dict foo2_bar20))
                      then [inconsistent_msg sorted_env {''foo''} {''foo'', ''bar''}]
                      else if inconsistent_msg sorted_env F (set (map fst (as_primitive_dict foo2_bar20)))
                                \<in> set [inconsistent_msg sorted_env {''foo''} {''foo'', ''bar''}]
                      then [inconsistent_msg sorted_env {''foo''} {''foo'', ''bar''}]
                      else [inconsistent_msg sorted_env {''foo''} {''foo'', ''bar''}]
                           @ [inconsistent_msg sorted_env F (set (map fst (as_primitive_dict foo2_bar20)))])
           = [inconsistent_msg sorted_env {''foo''} {''foo'', ''bar''}]"
    by code_simp
  note w = warning_emitted_once [OF h1, where d=foo2_bar20, unfolded f ws v u]
  from w h1 f ws show ?thesis by blast
qed

section \<open>What the CSV writer writes, the CSV reader reads\<close>

lemmas parse_defs = parse_process_char_def start_field_def end_record_def parse_save_field_def
  parse_add_char_def is_newline_def

lemma chars_distinct [simp]:
  "comma \<noteq> dquote" "comma \<noteq> CR" "comma \<noteq> LF" "dquote \<noteq> CR" "dquote \<noteq> LF" "CR \<noteq> LF"
  "dquote \<noteq> comma" "CR \<noteq> comma" "LF \<noteq> comma" "CR \<noteq> dquote" "LF \<noteq> dquote" "LF \<noteq> CR"
  by (simp_all add: comma_def dquote_def CR_def LF_def)

lemma feed_chars_append:
  "feed_chars (a @ b) r = (case feed_chars a r of Inl e \<Rightarrow> Inl e | Inr r' \<Rightarrow> feed_chars b r')"
  by (induction a arbitrary: r) (simp_all split: sum.splits)

lemma feed_quoted_body:
  "feed_chars (escape_quotes s @ rest) \<lparr>pstate = IN_QUOTED_FIELD, pfields = fs, pfield = f\<rparr>
   = feed_chars rest \<lparr>pstate = IN_QUOTED_FIELD, pfields = fs, pfield = f @ s\<rparr>"
proof (induction s arbitrary: f)
  case Nil
  then show ?case by (simp add: escape_quotes_def)
next
  case (Cons c s)
  have e: "escape_quotes (c # s) = (if c = dquote then [dquote, dquote] else [c]) @ escape_quotes s"
    by (simp add: escape_quotes_def)
  show ?case
  proof (cases "c = dquote")
    case True
    show ?thesis
      unfolding e using Cons.IH [of "f @ [dquote]"] True by (simp add: parse_defs)
  next
    case False
    show ?thesis
      unfolding e using Cons.IH [of "f @ [c]"] False by (simp add: parse_defs)
  qed
qed

lemma feed_plain_body:
  "\<not> list_ex special s \<Longrightarrow>
   feed_chars (s @ rest) \<lparr>pstate = IN_FIELD, pfields = fs, pfield = f\<rparr>
   = feed_chars rest \<lparr>pstate = IN_FIELD, pfields = fs, pfield = f @ s\<rparr>"
proof (induction s arbitrary: f)
  case Nil
  then show ?case by simp
next
  case (Cons c s)
  then show ?case
    using Cons.IH [of "f @ [c]"] by (simp add: parse_defs special_def)
qed

lemma feed_field_comma:
  "feed_chars (csv_field s @ comma # rest) \<lparr>pstate = START_FIELD, pfields = fs, pfield = []\<rparr>
   = feed_chars rest \<lparr>pstate = START_FIELD, pfields = fs @ [s], pfield = []\<rparr>"
proof (cases "list_ex special s")
  case True
  then show ?thesis
    using feed_quoted_body [of s "dquote # comma # rest" fs "[]"]
    by (simp add: csv_field_def parse_defs)
next
  case False
  show ?thesis
  proof (cases s)
    case Nil
    then show ?thesis by (simp add: csv_field_def parse_defs)
  next
    case (Cons c s')
    with False have "\<not> special c" "\<not> list_ex special s'" by simp_all
    then show ?thesis
      using feed_plain_body [of s' "comma # rest" fs "[c]"] False Cons
      by (simp add: csv_field_def parse_defs special_def)
  qed
qed

lemma feed_field_newline:
  assumes "nl = CR \<or> nl = LF"
  shows "feed_chars (csv_field s @ nl # rest) \<lparr>pstate = START_FIELD, pfields = fs, pfield = []\<rparr>
   = feed_chars rest \<lparr>pstate = EAT_CRNL, pfields = fs @ [s], pfield = []\<rparr>"
proof (cases "list_ex special s")
  case True
  then show ?thesis
    using feed_quoted_body [of s "dquote # nl # rest" fs "[]"] assms
    by (auto simp add: csv_field_def parse_defs)
next
  case False
  show ?thesis
  proof (cases s)
    case Nil
    then show ?thesis using assms by (auto simp add: csv_field_def parse_defs)
  next
    case (Cons c s')
    with False have "\<not> special c" "\<not> list_ex special s'" by simp_all
    then show ?thesis
      using feed_plain_body [of s' "nl # rest" fs "[c]"] False Cons assms
      by (auto simp add: csv_field_def parse_defs special_def)
  qed
qed

lemma feed_fields:
  assumes "nl = CR \<or> nl = LF"
  shows "vals \<noteq> [] \<Longrightarrow>
   feed_chars (str_join [comma] (map csv_field vals) @ nl # rest)
     \<lparr>pstate = START_FIELD, pfields = fs, pfield = []\<rparr>
   = feed_chars rest \<lparr>pstate = EAT_CRNL, pfields = fs @ vals, pfield = []\<rparr>"
proof (induction vals arbitrary: fs)
  case Nil
  then show ?case by simp
next
  case (Cons v vs)
  show ?case
  proof (cases vs)
    case Nil
    then show ?thesis by (simp add: feed_field_newline [OF assms])
  next
    case (Cons w ws)
    then have "str_join [comma] (map csv_field (v # vs)) @ nl # rest
        = csv_field v @ comma # (str_join [comma] (map csv_field vs) @ nl # rest)"
      by simp
    then show ?thesis
      using Cons.IH [of "fs @ [v]"] Cons by (simp only: feed_field_comma) simp
  qed
qed

lemma start_record_as_field:
  "c \<noteq> CR \<Longrightarrow> c \<noteq> LF \<Longrightarrow>
   feed_chars (c # t) \<lparr>pstate = START_RECORD, pfields = fs, pfield = f\<rparr>
   = feed_chars (c # t) \<lparr>pstate = START_FIELD, pfields = fs, pfield = f\<rparr>"
  by (simp add: parse_defs)

lemma csv_field_first:
  "csv_field s @ comma # rest = c # t \<Longrightarrow> c \<noteq> CR \<and> c \<noteq> LF"
  by (cases s) (auto simp: csv_field_def special_def split: if_splits)

lemma csv_field_first_newline:
  "s \<noteq> [] \<Longrightarrow> csv_field s @ nl # rest = c # t \<Longrightarrow> c \<noteq> CR \<and> c \<noteq> LF"
  by (cases s) (auto simp: csv_field_def special_def split: if_splits)

text \<open>
  The reader, fed the text that the writer makes of a row, is back at the start of a
  record with exactly the values of the row, whatever characters they hold.
\<close>

lemma csv_roundtrip:
  "feed_line (csv_writerow vals) parse_reset
   = Inr \<lparr>pstate = START_RECORD, pfields = vals, pfield = []\<rparr>"
proof (cases "vals = [] \<or> vals = [[]]")
  case True
  then show ?thesis
    by (auto simp: csv_writerow_def feed_line_def parse_reset_def CRLF_def parse_defs)
next
  case False
  then obtain v vs where vals: "vals = v # vs" and ne: "v \<noteq> [] \<or> vs \<noteq> []"
    by (cases vals) auto
  let ?T = "str_join [comma] (map csv_field vals) @ CR # [LF]"
  have T: "csv_writerow vals = ?T" using False by (simp add: csv_writerow_def CRLF_def)
  obtain c t where ct: "?T = c # t" by (cases ?T) auto
  have nc: "c \<noteq> CR \<and> c \<noteq> LF"
  proof (cases vs)
    case Nil
    with ne vals ct show ?thesis using csv_field_first_newline [of v CR "[LF]" c t] by simp
  next
    case (Cons w ws)
    with vals ct show ?thesis
      using csv_field_first [of v "str_join [comma] (map csv_field vs) @ CR # [LF]" c t] by simp
  qed
  have "feed_chars ?T parse_reset
      = feed_chars ?T \<lparr>pstate = START_FIELD, pfields = [], pfield = []\<rparr>"
    unfolding ct parse_reset_def
    by (rule start_record_as_field) (simp_all add: nc)
  also have "\<dots> = feed_chars [LF] \<lparr>pstate = EAT_CRNL, pfields = [] @ vals, pfield = []\<rparr>"
    using vals by (intro feed_fields) simp_all
  finally show ?thesis
    unfolding T feed_line_def by (simp add: parse_defs)
qed

section \<open>Records with the committed key set\<close>

lemma record_all_same:
  assumes "at_end (log_file st)" "writer st = Some fns" "fieldnames st = Some F"
    "\<forall>d\<in>set ds. set (map fst (as_primitive_dict d)) = F"
  shows "\<exists>st'. record_all env st ds = Return st' () \<and> writer st' = Some fns
          \<and> fieldnames st' = Some F \<and> at_end (log_file st')
          \<and> content (log_file st') =
               content (log_file st) @ concat (map (\<lambda>d. row_text fns (as_primitive_dict d)) ds)
          \<and> warnings st' = warnings st"
  using assms
proof (induction ds arbitrary: st)
  case Nil
  then show ?case by simp
next
  case (Cons d ds)
  let ?st1 = "append_log (row_text fns (as_primitive_dict d)) st"
  have F: "fieldnames st = Some (set (map fst (as_primitive_dict d)))"
    using Cons.prems(3,4) by simp
  have r: "record_data env st (TabularInput d) =
      Return ?st1 (fold mark (map fst (as_primitive_dict d)) d)"
    by (rule record_data_same [OF Cons.prems(1,2) F])
  have "\<exists>st'. record_all env ?st1 ds = Return st' () \<and> writer st' = Some fns
          \<and> fieldnames st' = Some F \<and> at_end (log_file st')
          \<and> content (log_file st') =
               content (log_file ?st1) @ concat (map (\<lambda>d. row_text fns (as_primitive_dict d)) ds)
          \<and> warnings st' = warnings ?st1"
    using Cons.prems by (intro Cons.IH) (simp_all add: at_end_append_log)
  then show ?case using r by simp
qed

lemma map_of_dict_get:
  "k \<in> set (map fst d) \<Longrightarrow> map_of d k = Some (dict_get d k)"
  by (cases "map_of d k") (auto simp: dict_get_def map_of_eq_None_iff)



section \<open>Closing in copy mode\<close>

text \<open>
  C1 does not hold of the code. In copy mode the record \<^verbatim>\<open>{a: 'x,y'}\<close> is written as
  the header \<^verbatim>\<open>a\<close> and the row \<^verbatim>\<open>"x,y"\<close>, quoted by the CSV writer. \<^verbatim>\<open>close\<close>
  reads the row back as the one value \<^verbatim>\<open>x,y\<close> and prints it with \<^verbatim>\<open>','.join\<close>,
  without the quotes that \<^verbatim>\<open>csv.DictWriter\<close> would write: the row of the final file is
  \<^verbatim>\<open>x,y\<close>, which the CSV reader takes for two values under the single field \<^verbatim>\<open>a\<close>.
\<close>

theorem close_copy_unquoted_value:
  "record_all sorted_env (init (Some ''copy'') 140) [a_xy] =
     Return (state_of (record_all sorted_env (init (Some ''copy'') 140) [a_xy])) ()
   \<and> writer (state_of (record_all sorted_env (init (Some ''copy'') 140) [a_xy])) = Some [''a'']
   \<and> content (log_file (state_of (record_all sorted_env (init (Some ''copy'') 140) [a_xy])))
       = ''a'' @ CRLF @ [dquote] @ ''x,y'' @ [dquote] @ CRLF
   \<and> returned (close (state_of (record_all sorted_env (init (Some ''copy'') 140) [a_xy]))) = Some ()
   \<and> content (log_file (state_of (close (state_of
         (record_all sorted_env (init (Some ''copy'') 140) [a_xy])))))
       = ''a'' @ [LF] @ ''x,y'' @ [LF]
   \<and> csv_writerow [''x,y''] = [dquote] @ ''x,y'' @ [dquote] @ CRLF
   \<and> feed_line (''x,y'' @ [LF]) parse_reset
       = Inr \<lparr>pstate = START_RECORD, pfields = [''x'', ''y''], pfield = []\<rparr>"
  by code_simp

section \<open>Closing in copy mode: records without line breaks\<close>

lemma csv_writerow_line: "csv_writerow row = csv_line row @ CRLF"
  by (simp add: csv_writerow_def csv_line_def)

lemma one_line_simps [simp]:
  "one_line []"
  "one_line (c # s) \<longleftrightarrow> c \<noteq> CR \<and> c \<noteq> LF \<and> one_line s"
  "one_line (a @ b) \<longleftrightarrow> one_line a \<and> one_line b"
  by (auto simp: one_line_def)

lemma one_line_escape: "one_line s \<Longrightarrow> one_line (escape_quotes s)"
  by (induction s) (simp_all add: escape_quotes_def)

lemma one_line_field: "one_line s \<Longrightarrow> one_line (csv_field s)"
  by (simp add: csv_field_def one_line_escape)

lemma one_line_join:
  "\<forall>s\<in>set xs. one_line s \<Longrightarrow> one_line (str_join [comma] xs)"
  by (induction "[comma]" xs rule: str_join.induct) simp_all

lemma one_line_csv_line:
  "\<forall>v\<in>set row. one_line v \<Longrightarrow> one_line (csv_line row)"
  by (simp add: csv_line_def one_line_join one_line_field)

lemma readlines_line:
  "one_line t \<Longrightarrow>
   readlines False cur (t @ CRLF @ rest) = (cur @ t @ [LF]) # readlines False [] rest"
proof (induction t arbitrary: cur)
  case Nil
  then show ?case by (simp add: CRLF_def)
next
  case (Cons c t)
  then show ?case using Cons.IH [of "cur @ [c]"] by simp
qed

lemma readlines_lines:
  "\<forall>t\<in>set ts. one_line t \<Longrightarrow>
   readlines False [] (concat (map (\<lambda>t. t @ CRLF) ts)) = map (\<lambda>t. t @ [LF]) ts"
proof (induction ts)
  case Nil
  then show ?case by simp
next
  case (Cons t ts)
  then show ?case using readlines_line [of t "[]" "concat (map (\<lambda>t. t @ CRLF) ts)"] by simp
qed

lemma read_line:
  assumes "vals \<noteq> []"
  shows "feed_line (csv_line vals @ [LF]) parse_reset
   = Inr \<lparr>pstate = START_RECORD, pfields = vals, pfield = []\<rparr>"
proof (cases "vals = [[]]")
  case True
  then show ?thesis
    by (simp add: csv_line_def feed_line_def parse_reset_def parse_defs)
next
  case False
  with assms obtain v vs where vals: "vals = v # vs" and ne: "v \<noteq> [] \<or> vs \<noteq> []"
    by (cases vals) auto
  let ?T = "str_join [comma] (map csv_field vals) @ LF # []"
  have T: "csv_line vals @ [LF] = ?T" using False by (simp add: csv_line_def)
  obtain c t where ct: "?T = c # t" by (cases ?T) auto
  have nc: "c \<noteq> CR \<and> c \<noteq> LF"
  proof (cases vs)
    case Nil
    with ne vals ct show ?thesis using csv_field_first_newline [of v LF "[]" c t] by simp
  next
    case (Cons w ws)
    with vals ct show ?thesis
      using csv_field_first [of v "str_join [comma] (map csv_field vs) @ LF # []" c t] by simp
  qed
  have "feed_chars ?T parse_reset
      = feed_chars ?T \<lparr>pstate = START_FIELD, pfields = [], pfield = []\<rparr>"
    unfolding ct parse_reset_def
    by (rule start_record_as_field) (simp_all add: nc)
  also have "\<dots> = feed_chars [] \<lparr>pstate = EAT_CRNL, pfields = [] @ vals, pfield = []\<rparr>"
    using vals by (intro feed_fields) simp_all
  finally show ?thesis
    unfolding T feed_line_def by (simp add: parse_defs)
qed

lemma copy_rows_rows:
  "\<forall>r\<in>set rows. r \<noteq> [] \<Longrightarrow> 0 < n \<Longrightarrow>
   copy_rows fns parse_reset n (map (\<lambda>r. csv_line r @ [LF]) rows) out
   = (out @ concat (map (\<lambda>r. str_join [comma] (copied_values fns r) @ [LF]) rows), None)"
proof (induction rows arbitrary: n out)
  case Nil
  then show ?case by simp
next
  case (Cons r rows)
  then have r: "feed_line (csv_line r @ [LF]) parse_reset
      = Inr \<lparr>pstate = START_RECORD, pfields = r, pfield = []\<rparr>" and ne: "r \<noteq> []"
    by (simp_all add: read_line)
  show ?case
    using Cons.prems ne Cons.IH [of "Suc n" "out @ str_join [comma] (copied_values fns r) @ [LF]"]
    by (simp add: r)
qed

lemma copy_rows_file:
  assumes "h \<noteq> []" "\<forall>r\<in>set rows. r \<noteq> []"
  shows "copy_rows fns parse_reset 0 (map (\<lambda>r. csv_line r @ [LF]) (h # rows)) []
   = (str_join [comma] fns @ [LF]
      @ concat (map (\<lambda>r. str_join [comma] (copied_values fns r) @ [LF]) rows), None)"
proof -
  have r: "feed_line (csv_line h @ [LF]) parse_reset
      = Inr \<lparr>pstate = START_RECORD, pfields = h, pfield = []\<rparr>"
    using assms(1) by (rule read_line)
  show ?thesis
    using assms copy_rows_rows [of rows "Suc 0" fns "str_join [comma] fns @ [LF]"]
    by (simp add: r)
qed

lemma dict_get_zip_rev:
  "length ks = length vs \<Longrightarrow> distinct ks \<Longrightarrow> map (dict_get (rev (zip ks vs))) ks = vs"
proof (induction ks vs rule: list_induct2)
  case Nil
  then show ?case by simp
next
  case (Cons k ks v vs)
  have z: "fst ` set (zip ks vs) = set ks"
    using Cons.hyps by (metis map_fst_zip set_map)
  have n: "map_of (rev (zip ks vs)) k = None"
    using Cons.prems by (simp add: map_of_eq_None_iff z)
  have a: "dict_get (rev (zip ks vs) @ [(k, v)]) k = v"
    using n by (simp add: dict_get_def map_add_def)
  have b: "map (dict_get (rev (zip ks vs) @ [(k, v)])) ks = map (dict_get (rev (zip ks vs))) ks"
  proof (rule map_cong [OF refl])
    fix x assume "x \<in> set ks"
    then have "map_of (rev (zip ks vs)) x \<noteq> None"
      by (simp add: map_of_eq_None_iff z)
    then show "dict_get (rev (zip ks vs) @ [(k, v)]) x = dict_get (rev (zip ks vs)) x"
      by (auto simp add: dict_get_def map_add_def split: option.splits)
  qed
  have c: "map (dict_get (rev (zip ks vs))) ks = vs"
    using Cons.IH Cons.prems by simp
  show ?case
    by (simp only: zip_Cons_Cons rev.simps list.map a b c)
qed

lemma copied_values_pad:
  "distinct fns \<Longrightarrow> length r \<le> length fns \<Longrightarrow>
   copied_values fns r = r @ replicate (length fns - length r) []"
  by (simp add: copied_values_def dict_reader_row_def dict_get_zip_rev)

lemma dict_to_list_extended:
  assumes "distinct fns" "prefix S fns" "set (map fst d) \<subseteq> set S"
  shows "dict_to_list S d @ replicate (length fns - length S) [] = dict_to_list fns d"
proof -
  from assms(2) obtain E where fns: "fns = S @ E" by (auto simp: prefix_def)
  have "map (dict_get d) E = map (\<lambda>k. []) E"
  proof (rule map_cong [OF refl])
    fix k assume "k \<in> set E"
    with assms(1) fns have "k \<notin> set S" by auto
    with assms(3) have "k \<notin> fst ` set d" by auto
    then have "map_of d k = None" by (simp add: map_of_eq_None_iff)
    then show "dict_get d k = []" by (simp add: dict_get_def)
  qed
  then show ?thesis by (simp add: fns dict_to_list_def map_replicate_const)
qed

lemma copied_row:
  assumes "distinct fns" "row_of fns d r"
  shows "copied_values fns r = dict_to_list fns (as_primitive_dict d)" and "r \<noteq> []"
proof -
  from assms(2) obtain S where S: "S \<noteq> []" "prefix S fns"
    "set (map fst (as_primitive_dict d)) \<subseteq> set S" "r = dict_to_list S (as_primitive_dict d)"
    by (auto simp: row_of_def)
  have l: "length r = length S" by (simp add: S(4) dict_to_list_def)
  have "length S \<le> length fns" using S(2) by (rule prefix_length_le)
  with l assms(1) have "copied_values fns r = r @ replicate (length fns - length S) []"
    by (simp add: copied_values_pad)
  also have "\<dots> = dict_to_list fns (as_primitive_dict d)"
    unfolding S(4) by (rule dict_to_list_extended [OF assms(1) S(2,3)])
  finally show "copied_values fns r = dict_to_list fns (as_primitive_dict d)" .
  show "r \<noteq> []" using S(1) l by auto
qed

lemma row_of_prefix:
  assumes "row_of fns d r" "prefix fns fns'"
  shows "row_of fns' d r"
proof -
  from assms(1) obtain S where S: "S \<noteq> []" "prefix S fns"
    "set (map fst (as_primitive_dict d)) \<subseteq> set S" "r = dict_to_list S (as_primitive_dict d)"
    by (auto simp: row_of_def)
  from S(2) assms(2) have "prefix S fns'" by (auto simp: prefix_def)
  with S(1,3,4) show ?thesis unfolding row_of_def by blast
qed

lemma record_data_copy:
  assumes "at_end (log_file st)" "writer st = Some fns" "fieldnames st = Some F"
    "inconsistency_handling st = Some ''copy''"
    "ext = (if set (map fst (as_primitive_dict d)) - F \<noteq> {}
            then set_list env (set (map fst (as_primitive_dict d)) - F) else [])"
  shows "\<exists>st'. record_data env st (TabularInput d) =
                 Return st' (fold mark (map fst (as_primitive_dict d)) d)
          \<and> at_end (log_file st') \<and> inconsistency_handling st' = Some ''copy''
          \<and> writer st' = Some (fns @ ext)
          \<and> fieldnames st' = Some (F \<union> set (map fst (as_primitive_dict d)))
          \<and> content (log_file st') = content (log_file st) @ row_text (fns @ ext) (as_primitive_dict d)"
proof (cases "F = set (map fst (as_primitive_dict d))")
  case True
  with assms show ?thesis
    by (simp add: record_data_same at_end_append_log)
next
  case False
  have m: "inconsistency_handling st \<noteq> Some ''fixed_header_length''" using assms(4) by simp
  from False assms show ?thesis
    by (simp add: record_data_differ_at_end at_end_append_log at_end_reconciled
        reconciled_writer reconciled_fieldnames content_reconciled_other [OF m])
qed

lemma copy_state_step:
  assumes "valid_env env" "copy_state st fns0 fns ds"
  shows "\<exists>st' fns'. record_data env st (TabularInput d) =
                 Return st' (fold mark (map fst (as_primitive_dict d)) d)
          \<and> copy_state st' fns0 fns' (ds @ [d])"
proof -
  let ?ks = "map fst (as_primitive_dict d)"
  define N where "N = set ?ks - set fns"
  define ext where "ext = (if N \<noteq> {} then set_list env N else [])"
  from assms(2) obtain rows where s: "inconsistency_handling st = Some ''copy''"
    "at_end (log_file st)" "writer st = Some fns" "fieldnames st = Some (set fns)"
    "distinct fns" "fns \<noteq> []" "fns0 \<noteq> []"
    "content (log_file st) = csv_writerow fns0 @ concat (map csv_writerow rows)"
    "list_all2 (row_of fns) ds rows"
    by (auto simp: copy_state_def)
  from record_data_copy [OF s(2,3,4,1) ext_def [unfolded N_def]]
  obtain st' where r: "record_data env st (TabularInput d) = Return st' (fold mark ?ks d)"
    and t: "at_end (log_file st')" "inconsistency_handling st' = Some ''copy''"
      "writer st' = Some (fns @ ext)" "fieldnames st' = Some (set fns \<union> set ?ks)"
      "content (log_file st') = content (log_file st) @ row_text (fns @ ext) (as_primitive_dict d)"
    by blast
  have "finite N" by (simp add: N_def)
  with assms(1) have e: "set ext = N" "distinct ext"
    by (auto simp: ext_def valid_env_def)
  have f: "set fns \<union> set ?ks = set (fns @ ext)" using e(1) by (auto simp: N_def)
  have d: "distinct (fns @ ext)" using s(5) e by (auto simp: N_def)
  have k: "set ?ks \<subseteq> set (fns @ ext)" using f by auto
  have new: "row_of (fns @ ext) d (dict_to_list (fns @ ext) (as_primitive_dict d))"
    unfolding row_of_def using k s(6) by (intro exI [of _ "fns @ ext"]) simp
  have old: "list_all2 (row_of (fns @ ext)) ds rows"
    using s(9) by (rule list_all2_mono) (simp add: row_of_prefix)
  have all: "list_all2 (row_of (fns @ ext)) (ds @ [d]) (rows @ [dict_to_list (fns @ ext) (as_primitive_dict d)])"
    using old new by (intro list_all2_appendI) simp_all
  have c: "content (log_file st') = csv_writerow fns0
      @ concat (map csv_writerow (rows @ [dict_to_list (fns @ ext) (as_primitive_dict d)]))"
    unfolding t(5) s(8) by (simp add: row_text_def)
  have "copy_state st' fns0 (fns @ ext) (ds @ [d])"
    unfolding copy_state_def using t(1,2,3) f d s(6,7) c all t(4) by auto
  with r show ?thesis by blast
qed

lemma copy_state_run:
  assumes "valid_env env"
  shows "copy_state st fns0 fns done \<Longrightarrow>
   \<exists>st' fns'. record_all env st ds = Return st' () \<and> copy_state st' fns0 fns' (done @ ds)"
proof (induction ds arbitrary: st fns "done")
  case Nil
  then show ?case by auto
next
  case (Cons d ds)
  from copy_state_step [OF assms Cons.prems, of d]
  obtain st1 fns1 where 1: "record_data env st (TabularInput d) =
        Return st1 (fold mark (map fst (as_primitive_dict d)) d)"
    "copy_state st1 fns0 fns1 (done @ [d])"
    by blast
  from Cons.IH [OF 1(2)] 1(1) show ?case by simp
qed

lemma list_all2_witness:
  "list_all2 P xs ys \<Longrightarrow> y \<in> set ys \<Longrightarrow> \<exists>x\<in>set xs. P x y"
  by (induction rule: list_all2_induct) auto

lemma list_all2_map_eq:
  "list_all2 (\<lambda>x y. f x = g y) xs ys \<Longrightarrow> map f xs = map g ys"
  by (induction rule: list_all2_induct) auto

lemma one_line_dict_get:
  "plain_record d \<Longrightarrow> one_line (dict_get (as_primitive_dict d) k)"
proof (cases "map_of (as_primitive_dict d) k")
  case None
  then show ?thesis by (simp add: dict_get_def)
next
  case (Some v)
  assume "plain_record d"
  moreover from Some have "(k, v) \<in> set (as_primitive_dict d)" by (rule map_of_SomeD)
  ultimately have "one_line v" by (auto simp: plain_record_def list_all_iff)
  with Some show ?thesis by (simp add: dict_get_def)
qed

lemma one_line_keys:
  "plain_record d \<Longrightarrow> \<forall>k\<in>set (map fst (as_primitive_dict d)). one_line k"
  by (auto simp: plain_record_def list_all_iff)

lemma copy_state_commit:
  assumes "as_primitive_dict d \<noteq> []" "distinct (map fst (as_primitive_dict d))"
  shows "\<exists>st. record_data env (init (Some ''copy'') hl) (TabularInput d) =
               Return st (fold mark (map fst (as_primitive_dict d)) d)
          \<and> copy_state st (map fst (as_primitive_dict d)) (map fst (as_primitive_dict d)) [d]"
proof -
  let ?ks = "map fst (as_primitive_dict d)"
  have "row_of ?ks d (dict_to_list ?ks (as_primitive_dict d))"
    unfolding row_of_def using assms(1) by (intro exI [of _ ?ks]) simp
  then show ?thesis
    using assms
    by (simp add: record_data_commit copy_state_def at_end_append_log header_text_eq row_text_def
        exI [of _ "[dict_to_list ?ks (as_primitive_dict d)]"])
qed

text \<open>
  In copy mode, when every record written has distinct keys and no key or value of
  it holds a line break, and the first record has fields: the writes succeed, and
  \<^verbatim>\<open>close\<close> returns with the file closed and its text replaced by the comma-joined
  final field names on one line, followed, for each record in the order written, by
  the comma-joined values \<^verbatim>\<open>record.get(name, '')\<close> over the final field names, each
  line ended by \<^verbatim>\<open>'\n'\<close>. Every key of every record is among the final field names.
  The values are joined as they are: one that holds a comma or a quote is not quoted.
\<close>

theorem close_copy_rectangular:
  assumes "valid_env env"
    and "list_all plain_record (d0 # ds)"
    and "as_primitive_dict d0 \<noteq> []"
  shows "\<exists>st fns st'.
           record_all env (init (Some ''copy'') hl) (d0 # ds) = Return st ()
         \<and> writer st = Some fns \<and> distinct fns
         \<and> list_all (\<lambda>d. set (map fst (as_primitive_dict d)) \<subseteq> set fns) (d0 # ds)
         \<and> close st = Return st' ()
         \<and> closed (log_file st')
         \<and> content (log_file st') =
             str_join [comma] fns @ [LF]
             @ concat (map (\<lambda>d. str_join [comma] (map (dict_get (as_primitive_dict d)) fns) @ [LF])
                         (d0 # ds))"
proof -
  let ?ks = "map fst (as_primitive_dict d0)"
  have p0: "plain_record d0" and pds: "\<forall>d\<in>set (d0 # ds). plain_record d"
    using assms(2) by (simp_all add: list_all_iff)
  from copy_state_commit [OF assms(3), of env hl] p0
  obtain st1 where 1: "record_data env (init (Some ''copy'') hl) (TabularInput d0) =
               Return st1 (fold mark ?ks d0)" "copy_state st1 ?ks ?ks [d0]"
    by (auto simp: plain_record_def)
  from copy_state_run [OF assms(1) 1(2), of ds]
  obtain st fns where 2: "record_all env st1 ds = Return st ()" "copy_state st ?ks fns (d0 # ds)"
    by auto
  have run: "record_all env (init (Some ''copy'') hl) (d0 # ds) = Return st ()"
    using 1(1) 2(1) by simp
  from 2(2) obtain rows where s: "inconsistency_handling st = Some ''copy''"
    "writer st = Some fns" "distinct fns" "?ks \<noteq> []"
    "content (log_file st) = csv_writerow ?ks @ concat (map csv_writerow rows)"
    "list_all2 (row_of fns) (d0 # ds) rows"
    by (auto simp: copy_state_def)
  have rows: "r \<noteq> [] \<and> (\<forall>v\<in>set r. one_line v)" if "r \<in> set rows" for r
  proof -
    from list_all2_witness [OF s(6) that] obtain d where d: "d \<in> set (d0 # ds)" "row_of fns d r"
      by blast
    from d(2) obtain S where "r = dict_to_list S (as_primitive_dict d)"
      by (auto simp: row_of_def)
    moreover have "plain_record d" using pds d(1) by blast
    ultimately have "\<forall>v\<in>set r. one_line v"
      by (auto simp: dict_to_list_def one_line_dict_get)
    with copied_row(2) [OF s(3) d(2)] show ?thesis by simp
  qed
  have wl: "csv_writerow = (\<lambda>r. csv_line r @ CRLF)"
    by (rule ext) (rule csv_writerow_line)
  have c: "content (log_file st) = concat (map (\<lambda>t. t @ CRLF) (map csv_line (?ks # rows)))"
    unfolding s(5) wl by (simp add: comp_def)
  have ol: "\<forall>t\<in>set (map csv_line (?ks # rows)). one_line t"
    using rows one_line_keys [OF p0] by (auto intro!: one_line_csv_line)
  have lines: "readlines False [] (content (log_file st))
      = map (\<lambda>r. csv_line r @ [LF]) (?ks # rows)"
    unfolding c readlines_lines [OF ol] by (simp add: comp_def)
  have cp: "copy_rows fns parse_reset 0 (readlines False [] (content (log_file st))) []
      = (str_join [comma] fns @ [LF]
         @ concat (map (\<lambda>r. str_join [comma] (copied_values fns r) @ [LF]) rows), None)"
    unfolding lines using s(4) rows by (intro copy_rows_file) simp_all
  have "list_all2 (\<lambda>d r. str_join [comma] (dict_to_list fns (as_primitive_dict d)) @ [LF]
                          = str_join [comma] (copied_values fns r) @ [LF]) (d0 # ds) rows"
    using s(6) by (rule list_all2_mono) (simp add: copied_row(1) [OF s(3)])
  then have m: "map (\<lambda>r. str_join [comma] (copied_values fns r) @ [LF]) rows
      = map (\<lambda>d. str_join [comma] (map (dict_get (as_primitive_dict d)) fns) @ [LF]) (d0 # ds)"
    using list_all2_map_eq
      [of "\<lambda>d. str_join [comma] (dict_to_list fns (as_primitive_dict d)) @ [LF]"
          "\<lambda>r. str_join [comma] (copied_values fns r) @ [LF]" "d0 # ds" rows]
    by (simp add: dict_to_list_def)
  define st' where "st' = (file_output_close st)\<lparr>log_file := (log_file (file_output_close st))
      \<lparr>content := str_join [comma] fns @ [LF]
         @ concat (map (\<lambda>d. str_join [comma] (map (dict_get (as_primitive_dict d)) fns) @ [LF])
                     (d0 # ds))\<rparr>\<rparr>"
  have cl: "close st = Return st' ()"
    using s(1,2) cp unfolding m st'_def
    by (simp add: close_def Let_def file_output_close_def)
  have keys: "list_all (\<lambda>d. set (map fst (as_primitive_dict d)) \<subseteq> set fns) (d0 # ds)"
    unfolding list_all_iff
  proof
    fix d assume "d \<in> set (d0 # ds)"
    then obtain r where "row_of fns d r"
      using s(6) by (metis in_set_conv_nth list_all2_conv_all_nth)
    then show "set (map fst (as_primitive_dict d)) \<subseteq> set fns"
      unfolding row_of_def by (meson set_mono_prefix subset_trans)
  qed
  have 6: "closed (log_file st')" by (simp add: st'_def file_output_close_def)
  have 7: "content (log_file st') =
             str_join [comma] fns @ [LF]
             @ concat (map (\<lambda>d. str_join [comma] (map (dict_get (as_primitive_dict d)) fns) @ [LF])
                         (d0 # ds))"
    by (simp add: st'_def)
  show ?thesis
    by (intro exI [of _ st] exI [of _ fns] exI [of _ st'] conjI)
       (fact run, fact s(2), fact s(3), fact keys, fact cl, fact 6, fact 7)
qed

theorem close_copy_rectangular_witness:
  "valid_env sorted_env
   \<and> list_all plain_record [a1_b2, x3_b4]
   \<and> as_primitive_dict a1_b2 \<noteq> []
   \<and> (\<exists>st fns st'.
         record_all sorted_env (init (Some ''copy'') 140) [a1_b2, x3_b4] = Return st ()
         \<and> writer st = Some fns
         \<and> close st = Return st' ()
         \<and> content (log_file st') =
             str_join [comma] fns @ [LF]
             @ concat (map (\<lambda>d. str_join [comma] (map (dict_get (as_primitive_dict d)) fns) @ [LF])
                         [a1_b2, x3_b4]))
   \<and> content (log_file (state_of (record_all sorted_env (init (Some ''copy'') 140) [a1_b2, x3_b4])))
       = ''a,b'' @ CRLF @ ''1,2'' @ CRLF @ '',4,3'' @ CRLF
   \<and> content (log_file (state_of (close (state_of
         (record_all sorted_env (init (Some ''copy'') 140) [a1_b2, x3_b4])))))
       = ''a,b,x'' @ [LF] @ ''1,2,'' @ [LF] @ '',4,3'' @ [LF]"
proof -
  have h2: "list_all plain_record [a1_b2, x3_b4]" by code_simp
  have h3: "as_primitive_dict a1_b2 \<noteq> []" by code_simp
  have c: "content (log_file (state_of (record_all sorted_env (init (Some ''copy'') 140) [a1_b2, x3_b4])))
       = ''a,b'' @ CRLF @ ''1,2'' @ CRLF @ '',4,3'' @ CRLF
   \<and> content (log_file (state_of (close (state_of
         (record_all sorted_env (init (Some ''copy'') 140) [a1_b2, x3_b4])))))
       = ''a,b,x'' @ [LF] @ ''1,2,'' @ [LF] @ '',4,3'' @ [LF]"
    by code_simp
  from close_copy_rectangular [OF valid_sorted_env h2 h3, where hl=140]
  have "\<exists>st fns st'.
         record_all sorted_env (init (Some ''copy'') 140) [a1_b2, x3_b4] = Return st ()
         \<and> writer st = Some fns
         \<and> close st = Return st' ()
         \<and> content (log_file st') =
             str_join [comma] fns @ [LF]
             @ concat (map (\<lambda>d. str_join [comma] (map (dict_get (as_primitive_dict d)) fns) @ [LF])
                         [a1_b2, x3_b4])"
    by blast
  with valid_sorted_env h2 h3 c show ?thesis by blast
qed

end
